theory Spec2Isabelle
  imports Main "HOL-Library.Sublist" "HOL-Library.Monad_Syntax"
begin

section \<open>LHI Directory Monitor backend: a model of src/server/index.js\<close>

text \<open>
  The backend is an Express server. Its helpers (\<open>parseExcludes\<close>,
  \<open>parseTextManifest\<close>, \<open>buildTreeFromFiles\<close>) are pure functions on strings
  and arrays; its route handlers talk to the file system and to the process table.
  The helpers are translated as recursive functions. A handler is translated as a function
  of the answers that the operating system gives to its calls; it returns the response
  together with the list of the external actions it has issued, in order.

  A JavaScript string is modelled as the list of its code units, of type \<open>char\<close>, so the
  model covers the code units below 256; a JavaScript number holding a count or a size is
  the natural number that the double stands for (\<open>js_number\<close> below).
\<close>

subsection \<open>String primitives\<close>

text \<open>\<open>s.split(sep)\<close> for a separator of one code unit. The empty string gives one empty piece.\<close>

fun split_on :: "char \<Rightarrow> string \<Rightarrow> string list" where
  "split_on sep [] = [[]]"
| "split_on sep (c # cs) =
     (let r = split_on sep cs
      in if c = sep then [] # r else (c # hd r) # tl r)"

text \<open>
  White space as \<open>String.prototype.trim\<close> and the regular expression class \<open>\s\<close> see it,
  among the code units below 256: TAB, LF, VT, FF, CR, SPACE and NBSP.
\<close>

definition is_space :: "char \<Rightarrow> bool" where
  "is_space c = (c \<in> set [CHR 0x09, CHR 0x0A, CHR 0x0B, CHR 0x0C, CHR 0x0D, CHR 0x20, CHR 0xA0])"

definition trim :: "string \<Rightarrow> string" where
  "trim s = rev (dropWhile is_space (rev (dropWhile is_space s)))"

definition startsWith :: "string \<Rightarrow> string \<Rightarrow> bool" where
  "startsWith s p = (take (length p) s = p)"

definition endsWith :: "string \<Rightarrow> string \<Rightarrow> bool" where
  "endsWith s p = (length p \<le> length s \<and> drop (length s - length p) s = p)"

subsection \<open>parseExcludes\<close>

record exclude_pattern =
  pattern :: string
  isDirectory :: bool

text \<open>The \<open>for\<close> loop of \<open>parseExcludes\<close>: \<open>patterns\<close> is the array that the loop pushes to.\<close>

fun parseExcludes_loop :: "string list \<Rightarrow> exclude_pattern list \<Rightarrow> exclude_pattern list" where
  "parseExcludes_loop [] patterns = patterns"
| "parseExcludes_loop (line # rest) patterns =
     (let trimmed = trim line
      in if trimmed = [] \<or> startsWith trimmed ''#''
         then parseExcludes_loop rest patterns
         else parseExcludes_loop rest
                (patterns @ [\<lparr>pattern = trimmed, isDirectory = endsWith trimmed ''/''\<rparr>]))"

definition parseExcludes :: "string \<Rightarrow> exclude_pattern list" where
  "parseExcludes content = parseExcludes_loop (split_on CHR 0x0A content) []"

text \<open>What the specification says of the parser: keep the trimmed lines that are neither blank
  nor comments, in order, and mark those that end with a slash.\<close>

definition kept_line :: "string \<Rightarrow> bool" where
  "kept_line t = (t \<noteq> [] \<and> \<not> startsWith t ''#'')"

definition excludes_spec :: "string \<Rightarrow> exclude_pattern list" where
  "excludes_spec content =
     map (\<lambda>t. \<lparr>pattern = t, isDirectory = (t \<noteq> [] \<and> last t = CHR ''/'')\<rparr>)
       (filter kept_line (map trim (split_on CHR 0x0A content)))"

subsection \<open>The operating system, as the handlers see it\<close>

text \<open>
  A handler's calls to Node's library are answered by an \<open>os\<close> value: a fallible call
  (one that may reject or throw) returns \<open>Inl\<close> with the error's message, or \<open>Inr\<close> with
  its result. \<open>path.join\<close> and \<open>Date.prototype.toISOString\<close> are library functions
  taken as they come; \<open>MONITOR_DIR\<close> is the constant the server derives from its own location,
  and \<open>date_now\<close> is the clock read by \<open>new Date()\<close>.
\<close>

record os =
  path_join :: "string \<Rightarrow> string \<Rightarrow> string"
  fs_access :: "string \<Rightarrow> bool"
  fs_readFile :: "string \<Rightarrow> string + string"
  fs_readdir :: "string \<Rightarrow> string + string list"
  fs_stat_mtime :: "string \<Rightarrow> string + int"
  execAsync :: "string \<Rightarrow> string + string"
  toISOString :: "int \<Rightarrow> string"
  date_now :: int
  MONITOR_DIR :: string

text \<open>A response: \<open>res.json(body)\<close>, or \<open>res.status(code).json({ error: message })\<close>.\<close>

datatype 'a reply = Json200 'a | Failed nat string

text \<open>The external actions of the handlers that change the world, and the checks that
  guard them, in the order in which a handler issues them.\<close>

datatype action =
    Access string
  | Exec string
  | Spawn string "string list" bool string
  | Unref
  | Sleep nat

subsection \<open>GET /api/excludes\<close>

record excludes_body =
  patterns :: "exclude_pattern list"
  source :: "string option"

text \<open>One \<open>try\<close> block of the handler: \<open>fs.access\<close>, then \<open>fs.readFile\<close>, then the
  response; \<open>Inl\<close> is the jump to its \<open>catch\<close>.\<close>

definition try_excludes_file :: "os \<Rightarrow> string \<Rightarrow> string \<Rightarrow> string + excludes_body reply" where
  "try_excludes_file w filePath name =
     (if \<not> fs_access w filePath then Inl ''ENOENT''
      else case fs_readFile w filePath of
             Inl e \<Rightarrow> Inl e
           | Inr content \<Rightarrow>
               Inr (Json200 \<lparr>patterns = parseExcludes content, source = Some name\<rparr>))"

definition excludes_handler :: "os \<Rightarrow> string \<Rightarrow> excludes_body reply" where
  "excludes_handler w watchPath =
     (let excludePath = path_join w watchPath ''.lhi_excludes''
      in case try_excludes_file w excludePath ''.lhi_excludes'' of
           Inr r \<Rightarrow> r
         | Inl _ \<Rightarrow>
             (let gitignorePath = path_join w watchPath ''.gitignore''
              in case try_excludes_file w gitignorePath ''.gitignore'' of
                   Inr r \<Rightarrow> r
                 | Inl _ \<Rightarrow> Json200 \<lparr>patterns = [], source = None\<rparr>))"

subsection \<open>POST /api/registry/add\<close>

text \<open>The body \<open>{ success, message }\<close> of the lifecycle handlers; the registry handlers
  add the tool's standard output (the field \<open>output\<close>).\<close>

record ack_body =
  success :: bool
  message :: string

record add_body = ack_body +
  output_text :: string

definition REGISTRY_SCRIPT :: "os \<Rightarrow> string" where
  "REGISTRY_SCRIPT w = path_join w (MONITOR_DIR w) ''src/lhi_directory_monitor_registry.sh''"

definition registry_add_command :: "os \<Rightarrow> string \<Rightarrow> string" where
  "registry_add_command w directory =
     ''bash \"'' @ REGISTRY_SCRIPT w @ ''\" add \"'' @ directory @ ''\"''"

text \<open>\<open>directory\<close> is the field of the request body: \<open>None\<close> when the body has no such
  field. The empty string is falsy, as a missing field is.\<close>

definition registry_add :: "os \<Rightarrow> string option \<Rightarrow> add_body reply \<times> action list" where
  "registry_add w directory =
     (case directory of
        None \<Rightarrow> (Failed 400 ''Directory path is required'', [])
      | Some d \<Rightarrow>
          if d = [] then (Failed 400 ''Directory path is required'', [])
          else if \<not> fs_access w d
          then (Failed 400 (''Directory does not exist: '' @ d), [Access d])
          else (case execAsync w (registry_add_command w d) of
                  Inl e \<Rightarrow> (Failed 500 e, [Access d, Exec (registry_add_command w d)])
                | Inr stdout \<Rightarrow>
                    (Json200 \<lparr>success = True, message = ''Directory added: '' @ d, output_text = stdout\<rparr>,
                     [Access d, Exec (registry_add_command w d)])))"

subsection \<open>POST /api/start\<close>

definition pgrep_command :: "string \<Rightarrow> string" where
  "pgrep_command watchPath = ''pgrep -f \"fswatch.*'' @ watchPath @ ''\" || true''"

text \<open>\<open>spawn\<close> returns the child at once; the action records the program, its arguments,
  the \<open>detached\<close> option and the working directory. \<open>Sleep\<close> is the awaited \<open>setTimeout\<close>,
  in milliseconds.\<close>

definition start_handler :: "os \<Rightarrow> string \<Rightarrow> ack_body reply \<times> action list" where
  "start_handler w watchPath =
     (case execAsync w (pgrep_command watchPath) of
        Inl e \<Rightarrow> (Failed 500 e, [Exec (pgrep_command watchPath)])
      | Inr stdout \<Rightarrow>
          if trim stdout \<noteq> []
          then (Json200 \<lparr>success = True, message = ''Monitor already running for this directory''\<rparr>,
                [Exec (pgrep_command watchPath)])
          else (let monitorScript = path_join w (MONITOR_DIR w) ''src/lhi_directory_monitor.sh''
                in (Json200 \<lparr>success = True, message = ''Monitor started for '' @ watchPath\<rparr>,
                    [Exec (pgrep_command watchPath),
                     Spawn ''bash'' [monitorScript, ''-d'', watchPath, ''--verbose''] True (MONITOR_DIR w),
                     Unref,
                     Sleep 2000])))"

subsection \<open>Numbers in text\<close>

definition is_digit :: "char \<Rightarrow> bool" where
  "is_digit c = (48 \<le> (of_char c :: nat) \<and> (of_char c :: nat) \<le> 57)"

definition digit_val :: "char \<Rightarrow> nat" where
  "digit_val c = of_char c - 48"

definition digits_value :: "string \<Rightarrow> nat" where
  "digits_value ds = foldl (\<lambda>a c. 10 * a + digit_val c) 0 ds"

definition is_hex_digit :: "char \<Rightarrow> bool" where
  "is_hex_digit c =
     (is_digit c \<or> (65 \<le> (of_char c :: nat) \<and> (of_char c :: nat) \<le> 70)
                \<or> (97 \<le> (of_char c :: nat) \<and> (of_char c :: nat) \<le> 102))"

definition hex_val :: "char \<Rightarrow> nat" where
  "hex_val c =
     (if is_digit c then of_char c - 48
      else if (of_char c :: nat) \<le> 70 then of_char c - 55
      else of_char c - 87)"

definition hex_value :: "string \<Rightarrow> nat" where
  "hex_value ds = foldl (\<lambda>a c. 16 * a + hex_val c) 0 ds"

text \<open>
  The number that a natural number becomes in JavaScript, where a number is a double:
  below \<open>2 ^ 53\<close> the number itself; above, the nearest number with 53 significant bits,
  and of two nearest ones the one whose last significant bit is zero. (The overflow to
  \<open>Infinity\<close>, which takes a text of more than 308 digits, is left out.)
\<close>

fun bit_length :: "nat \<Rightarrow> nat" where
  "bit_length n = (if n = 0 then 0 else Suc (bit_length (n div 2)))"

declare bit_length.simps [simp del]

definition js_number :: "nat \<Rightarrow> nat" where
  "js_number n =
     (if n < 2 ^ 53 then n
      else (let e = bit_length n - 53;
                q = n div 2 ^ e;
                r = n mod 2 ^ e;
                h = 2 ^ (e - 1)
            in if r < h \<or> (r = h \<and> even q) then q * 2 ^ e else (q + 1) * 2 ^ e))"

text \<open>\<open>parseInt(s, 10)\<close>: leading white space, a sign, then the longest run of decimal
  digits; \<open>None\<close> is \<open>NaN\<close>.\<close>

definition strip_sign :: "string \<Rightarrow> string" where
  "strip_sign t = (case t of [] \<Rightarrow> [] | c # cs \<Rightarrow> if c = CHR ''+'' \<or> c = CHR ''-'' then cs else t)"

definition sign_of :: "string \<Rightarrow> int" where
  "sign_of t = (case t of [] \<Rightarrow> 1 | c # cs \<Rightarrow> if c = CHR ''-'' then - 1 else 1)"

definition parseInt10 :: "string \<Rightarrow> int option" where
  "parseInt10 s =
     (let t = dropWhile is_space s;
          ds = takeWhile is_digit (strip_sign t)
      in if ds = [] then None else Some (sign_of t * int (js_number (digits_value ds))))"

text \<open>\<open>parseInt(s)\<close> with no radix: as above, but a prefix \<open>0x\<close> or \<open>0X\<close> selects base 16.\<close>

definition parseInt :: "string \<Rightarrow> int option" where
  "parseInt s =
     (let t = dropWhile is_space s;
          u = strip_sign t
      in if startsWith u ''0x'' \<or> startsWith u ''0X''
         then (let hs = takeWhile is_hex_digit (drop 2 u)
               in if hs = [] then None else Some (sign_of t * int (js_number (hex_value hs))))
         else parseInt10 s)"

text \<open>A natural number in decimal, as \<open>pgrep\<close> prints a process identifier.\<close>

fun show_nat :: "nat \<Rightarrow> string" where
  "show_nat n =
     (if n < 10 then [char_of (48 + n)]
      else show_nat (n div 10) @ [char_of (48 + n mod 10)])"

declare show_nat.simps [simp del]

subsection \<open>GET /api/status\<close>

record status_body =
  running :: bool
  pid :: "int option"
  watchedPath :: string
  uptime :: "string option"
  lastManifestUpdate :: "string option"
  error_message :: "string option"

definition ps_command :: "string \<Rightarrow> string" where
  "ps_command p = ''ps -p '' @ p @ '' -o etime= || true''"

text \<open>\<open>stdout.trim().split("\n").filter(Boolean)\<close>: the non-empty lines of the output.\<close>

definition probe_pids :: "string \<Rightarrow> string list" where
  "probe_pids stdout = filter (\<lambda>p. p \<noteq> []) (split_on CHR 0x0A (trim stdout))"

definition manifest_mtime :: "os \<Rightarrow> string \<Rightarrow> string option" where
  "manifest_mtime w watchPath =
     (case fs_stat_mtime w (path_join w watchPath ''.lhi_manifest'') of
        Inl _ \<Rightarrow> None
      | Inr m \<Rightarrow> Some (toISOString w m))"

text \<open>The handler answers with status 200 on both paths; on the \<open>catch\<close> path the body has
  the fields \<open>running\<close>, \<open>pid\<close>, \<open>watchedPath\<close> and \<open>error\<close> only.\<close>

definition status_handler :: "os \<Rightarrow> string \<Rightarrow> status_body reply" where
  "status_handler w watchPath =
     (case execAsync w (pgrep_command watchPath) of
        Inl e \<Rightarrow>
          Json200 \<lparr>running = False, pid = None, watchedPath = watchPath, uptime = None,
                   lastManifestUpdate = None, error_message = Some e\<rparr>
      | Inr stdout \<Rightarrow>
          (let pids = probe_pids stdout;
               running = (length pids > 0);
               uptime = (case pids of
                           [] \<Rightarrow> None
                         | p # _ \<Rightarrow>
                             if p = [] then None
                             else (case execAsync w (ps_command p) of
                                     Inl _ \<Rightarrow> None
                                   | Inr psOut \<Rightarrow> Some (trim psOut)));
               lastManifestUpdate = manifest_mtime w watchPath
           in Json200 \<lparr>running = running,
                       pid = (case pids of [] \<Rightarrow> None | p # _ \<Rightarrow> parseInt p),
                       watchedPath = watchPath, uptime = uptime,
                       lastManifestUpdate = lastManifestUpdate, error_message = None\<rparr>))"

text \<open>What \<open>pgrep\<close> prints for a list of matching processes: one identifier on each line.\<close>

definition pgrep_output :: "nat list \<Rightarrow> string" where
  "pgrep_output ps = concat (map (\<lambda>n. show_nat n @ [CHR 0x0A]) ps)"

subsection \<open>Notions used to state the properties of the handlers\<close>

text \<open>The text of a file that is present (\<open>fs.access\<close> succeeds) and can be read
  (\<open>fs.readFile\<close> succeeds).\<close>

definition file_content :: "os \<Rightarrow> string \<Rightarrow> string option" where
  "file_content w p =
     (if fs_access w p then (case fs_readFile w p of Inl _ \<Rightarrow> None | Inr c \<Rightarrow> Some c) else None)"

definition is_spawn :: "action \<Rightarrow> bool" where
  "is_spawn a = (case a of Spawn _ _ _ _ \<Rightarrow> True | _ \<Rightarrow> False)"

definition is_exec :: "action \<Rightarrow> bool" where
  "is_exec a = (case a of Exec _ \<Rightarrow> True | _ \<Rightarrow> False)"

text \<open>Operating systems used as concrete inputs. In \<open>os_plain\<close> the directory \<open>/w\<close> exists and
  holds a \<open>.gitignore\<close>; \<open>pgrep\<close> finds the processes 2113 and 45 for \<open>/w\<close> and none for any
  other directory; every other call fails. In \<open>os_unreadable\<close> there is, besides, an entry
  \<open>/w/.lhi_excludes\<close> that exists and cannot be read as a file.\<close>

definition os_plain :: os where
  "os_plain =
     \<lparr>path_join = (\<lambda>a b. a @ ''/'' @ b),
      fs_access = (\<lambda>p. p = ''/w'' \<or> p = ''/w/.gitignore''),
      fs_readFile = (\<lambda>p. if p = ''/w/.gitignore'' then Inr ''dist/'' else Inl ''ENOENT''),
      fs_readdir = (\<lambda>p. Inl ''ENOENT''),
      fs_stat_mtime = (\<lambda>p. Inl ''ENOENT''),
      execAsync = (\<lambda>c. if c = pgrep_command ''/w'' then Inr (pgrep_output [2113, 45])
                        else if c = pgrep_command ''/v'' then Inr []
                        else Inl ''Command failed''),
      toISOString = (\<lambda>t. ''1970-01-01T00:00:00.000Z''),
      date_now = 0,
      MONITOR_DIR = ''/m''\<rparr>"

text \<open>
  What \<open>execAsync\<close> gives for a shell command, from the exit status and the output of the
  command: a status other than zero rejects the promise; when the command line ends with
  \<open>|| true\<close> the status of the whole line is zero, and the promise resolves with whatever
  has been printed. In \<open>os_gone\<close>, \<open>pgrep\<close> prints the identifier 2113 for \<open>/w\<close> and the
  process is gone when \<open>ps\<close> looks it up: \<open>ps\<close> prints nothing and exits with status 1.
\<close>

definition exec_plain :: "nat \<Rightarrow> string \<Rightarrow> string + string" where
  "exec_plain status printed = (if status = 0 then Inr printed else Inl ''Command failed'')"

definition exec_or_true :: "nat \<Rightarrow> string \<Rightarrow> string + string" where
  "exec_or_true status printed = Inr printed"

definition os_gone :: os where
  "os_gone =
     os_plain\<lparr>execAsync :=
       (\<lambda>c. if c = ''pgrep -f \"fswatch.*/w\" || true'' then exec_or_true 0 ''2113\<newline>''
            else if c = ''ps -p 2113 -o etime= || true'' then exec_or_true 1 []
            else exec_plain 127 [])\<rparr>"

definition os_unreadable :: os where
  "os_unreadable =
     os_plain\<lparr>fs_access := (\<lambda>p. p = ''/w'' \<or> p = ''/w/.gitignore'' \<or> p = ''/w/.lhi_excludes''),
              fs_readFile := (\<lambda>p. if p = ''/w/.gitignore'' then Inr ''dist/''
                                   else if p = ''/w/.lhi_excludes''
                                   then Inl ''EISDIR: illegal operation on a directory, read''
                                   else Inl ''ENOENT'')\<rparr>"

subsection \<open>GET /api/changes\<close>







text \<open>
  The regular expression \<open>/\[([^\]]+)\]\[fswatch\] Change detected: (.+)/\<close>.
  \<open>match_change_here\<close> matches it at the start of its argument: an opening bracket,
  the longest run of code units other than \<open>]\<close> (the run is followed by \<open>]\<close> in a match, so
  no shorter run can match), the fixed text, and the longest non-empty run of code units
  that are not line terminators. \<open>match_change\<close> is \<open>line.match\<close>: the leftmost match.
\<close>

definition is_line_terminator :: "char \<Rightarrow> bool" where
  "is_line_terminator c = (c = CHR 0x0A \<or> c = CHR 0x0D)"














subsection \<open>buildTreeFromFiles\<close>

datatype entry_type = File | Directory

text \<open>An element of the array \<open>files\<close>: \<open>{ path, type, size, modified }\<close>.\<close>

record file_record =
  rec_path :: string
  rec_type :: entry_type
  rec_size :: nat
  rec_modified :: string

text \<open>A node \<open>{ path, type, size, modified, children }\<close>; \<open>None\<close> is \<open>undefined\<close>.\<close>

datatype tree_node =
  TreeNode (node_path: string) (node_type: entry_type) (node_size: "nat option")
    (node_modified: "string option") (node_children: "tree_node list option")

text \<open>The loops mutate the arrays in place. Every \<open>children\<close> array is created fresh and
  is reachable from its node only, so the mutation of the array of the node found by
  \<open>find\<close> is the replacement of that node, the first with its path, in its level.\<close>

fun replace_first :: "string \<Rightarrow> tree_node \<Rightarrow> tree_node list \<Rightarrow> tree_node list" where
  "replace_first p n [] = []"
| "replace_first p n (e # es) = (if node_path e = p then n # es else e # replace_first p n es)"

text \<open>The inner \<open>for\<close> loop, from index \<open>i\<close> on: \<open>part # rest\<close> are the parts from \<open>i\<close>,
  and \<open>isLast\<close> holds when no part follows.\<close>

fun insert_path :: "file_record \<Rightarrow> string \<Rightarrow> string list \<Rightarrow> tree_node list \<Rightarrow> tree_node list" where
  "insert_path file currentPath [] currentLevel = currentLevel"
| "insert_path file currentPath (part # rest) currentLevel =
     (let currentPath' = (if currentPath \<noteq> [] then currentPath @ ''/'' @ part else part);
          isLast = (rest = []);
          found = find (\<lambda>e. node_path e = currentPath') currentLevel;
          existing = (case found of
                        Some e \<Rightarrow> e
                      | None \<Rightarrow>
                          TreeNode currentPath'
                            (if isLast \<and> rec_type file \<noteq> Directory then File else Directory)
                            (if isLast then Some (rec_size file) else None)
                            (if isLast then Some (rec_modified file) else None)
                            (if isLast \<and> rec_type file \<noteq> Directory then None else Some []));
          level = (case found of Some e \<Rightarrow> currentLevel | None \<Rightarrow> currentLevel @ [existing])
      in case node_children existing of
           None \<Rightarrow> insert_path file currentPath' rest level
         | Some children \<Rightarrow>
             replace_first currentPath'
               (TreeNode (node_path existing) (node_type existing) (node_size existing)
                  (node_modified existing)
                  (Some (insert_path file currentPath' rest children)))
               level)"

definition buildTreeFromFiles :: "file_record list \<Rightarrow> tree_node list" where
  "buildTreeFromFiles files =
     foldl (\<lambda>tree file. insert_path file [] (split_on CHR ''/'' (rec_path file)) tree) [] files"

subsection \<open>parseTextManifest\<close>

text \<open>
  The regular expression of a file entry,
  \<open>/^"([^"]+)"\s+\((\d+)\s+bytes\)\s+-\s+Modified:\s+(.+)$/\<close>, read from left to right.
  \<open>span_plus\<close> is a greedy \<open>+\<close> over a class; each of the classes is followed by a
  code unit outside the class, so the longest run is the only one that can match. The last
  two items are the exception: \<open>\s+\<close> gives code units back to \<open>(.+)\<close> when nothing follows
  the white space, and \<open>.\<close> does not match a line terminator.
\<close>

definition expect :: "string \<Rightarrow> string \<Rightarrow> string option" where
  "expect lit s = (if startsWith s lit then Some (drop (length lit) s) else None)"

definition span_plus :: "(char \<Rightarrow> bool) \<Rightarrow> string \<Rightarrow> (string \<times> string) option" where
  "span_plus P s = (if takeWhile P s = [] then None else Some (takeWhile P s, dropWhile P s))"

definition final_text :: "string \<Rightarrow> string \<Rightarrow> string option" where
  "final_text ws rest =
     (if rest \<noteq> []
      then (if list_ex is_line_terminator rest then None else Some rest)
      else (if 2 \<le> length ws \<and> \<not> is_line_terminator (last ws) then Some [last ws] else None))"

definition match_file_line :: "string \<Rightarrow> (string \<times> string \<times> string) option" where
  "match_file_line line =
     do {
       r1 \<leftarrow> expect [CHR 0x22] line;
       (filePath, r2) \<leftarrow> span_plus (\<lambda>c. c \<noteq> CHR 0x22) r1;
       r3 \<leftarrow> expect [CHR 0x22] r2;
       (_, r4) \<leftarrow> span_plus is_space r3;
       r5 \<leftarrow> expect ''('' r4;
       (bytes, r6) \<leftarrow> span_plus is_digit r5;
       (_, r7) \<leftarrow> span_plus is_space r6;
       r8 \<leftarrow> expect ''bytes)'' r7;
       (_, r9) \<leftarrow> span_plus is_space r8;
       r10 \<leftarrow> expect ''-'' r9;
       (_, r11) \<leftarrow> span_plus is_space r10;
       r12 \<leftarrow> expect ''Modified:'' r11;
       (ws, r13) \<leftarrow> span_plus is_space r12;
       modified \<leftarrow> final_text ws r13;
       Some (filePath, bytes, modified)
     }"

text \<open>\<open>/^Total Files:\s*(\d+)/\<close> and \<open>/^Total Directories:\s*(\d+)/\<close>: the captured digits.\<close>

definition match_total :: "string \<Rightarrow> string \<Rightarrow> string option" where
  "match_total label line =
     do {
       r \<leftarrow> expect label line;
       (ds, _) \<leftarrow> span_plus is_digit (dropWhile is_space r);
       Some ds
     }"

text \<open>The variables of the scan. \<open>parseInt(x, 10)\<close> on captured digits is the number of
  their decimal value.\<close>

record scan_state =
  directory_field :: "string option"
  timestamp_field :: "string option"
  total_files_field :: nat
  total_directories_field :: nat
  files :: "file_record list"
  inFileListing :: bool
  inSummary :: bool

text \<open>The part of the loop body after the chain of header tests.\<close>

definition scan_sections :: "scan_state \<Rightarrow> string \<Rightarrow> scan_state" where
  "scan_sections st line =
     (let st1 =
            (if inSummary st \<and> trim line \<noteq> []
             then (let st' = (case match_total ''Total Files:'' line of
                                Some ds \<Rightarrow> st\<lparr>total_files_field := js_number (digits_value ds)\<rparr>
                              | None \<Rightarrow> st)
                   in case match_total ''Total Directories:'' line of
                        Some ds \<Rightarrow> st'\<lparr>total_directories_field := js_number (digits_value ds)\<rparr>
                      | None \<Rightarrow> st')
             else st)
      in if inFileListing st1 \<and> trim line \<noteq> [] \<and> \<not> startsWith line ''Summary:''
         then (case match_file_line line of
                 Some (filePath, bytes, modified) \<Rightarrow>
                   st1\<lparr>files := files st1 @
                          [\<lparr>rec_path = filePath, rec_type = File,
                            rec_size = js_number (digits_value bytes), rec_modified = trim modified\<rparr>]\<rparr>
               | None \<Rightarrow> st1)
         else st1)"

text \<open>One turn of the loop. \<open>line.replace("Timestamp:", "")\<close> removes the first occurrence,
  which is the prefix just tested.\<close>

definition scan_line :: "scan_state \<Rightarrow> string \<Rightarrow> scan_state" where
  "scan_line st line =
     (if startsWith line ''Timestamp:''
      then scan_sections (st\<lparr>timestamp_field := Some (trim (drop (length ''Timestamp:'') line))\<rparr>) line
      else if startsWith line ''Directory:''
      then scan_sections (st\<lparr>directory_field := Some (trim (drop (length ''Directory:'') line))\<rparr>) line
      else if startsWith line ''File Listing:''
      then st\<lparr>inFileListing := True, inSummary := False\<rparr>
      else if startsWith line ''Summary:''
      then st\<lparr>inFileListing := False, inSummary := True\<rparr>
      else if startsWith line ''-------------'' \<or> startsWith line ''--------''
      then st
      else scan_sections st line)"

definition initial_state :: scan_state where
  "initial_state =
     \<lparr>directory_field = None, timestamp_field = None, total_files_field = 0,
      total_directories_field = 0, files = [], inFileListing = False, inSummary = False\<rparr>"

text \<open>The count of directories from the listing. The \<open>Set\<close> is a list without repetition;
  \<open>add_prefixes\<close> is the loop over \<open>i < parts.length - 1\<close>.\<close>

fun add_prefixes :: "string \<Rightarrow> string list \<Rightarrow> string list \<Rightarrow> string list" where
  "add_prefixes currentPath (part # next # rest) directories =
     (let currentPath' = (if currentPath \<noteq> [] then currentPath @ ''/'' @ part else part)
      in add_prefixes currentPath' (next # rest) (List.insert currentPath' directories))"
| "add_prefixes currentPath parts directories = directories"

definition collect_directories :: "file_record list \<Rightarrow> string list" where
  "collect_directories fs =
     foldl (\<lambda>directories file. add_prefixes [] (split_on CHR ''/'' (rec_path file)) directories) [] fs"

record manifest =
  manifest_directory :: "string option"
  manifest_timestamp :: "string option"
  total_files :: nat
  total_directories :: nat
  tree :: "tree_node list"

definition parseTextManifest :: "string \<Rightarrow> manifest" where
  "parseTextManifest content =
     (let st = foldl scan_line initial_state (split_on CHR 0x0A content);
          tf = (if total_files_field st = 0 then length (files st) else total_files_field st);
          td =
            (if total_directories_field st = 0 \<and> length (files st) > 0
             then length (collect_directories (files st))
             else total_directories_field st)
      in \<lparr>manifest_directory = directory_field st, manifest_timestamp = timestamp_field st,
          total_files = tf, total_directories = td,
          tree = buildTreeFromFiles (files st)\<rparr>)"

subsection \<open>GET /api/manifest\<close>

record manifest_body =
  body_directory :: string
  body_timestamp :: "string option"
  body_total_files :: nat
  body_total_directories :: nat
  body_tree :: "tree_node list"
  body_error :: "string option"

text \<open>\<open>a || b\<close> on a string or \<open>null\<close>: the empty string is falsy.\<close>

definition or_else :: "string option \<Rightarrow> string \<Rightarrow> string" where
  "or_else a b = (case a of None \<Rightarrow> b | Some s \<Rightarrow> if s = [] then b else s)"

definition manifest_handler :: "os \<Rightarrow> string \<Rightarrow> manifest_body reply" where
  "manifest_handler w watchPath =
     (let manifestPath = path_join w watchPath ''.lhi_manifest''
      in if \<not> fs_access w manifestPath
         then Json200 \<lparr>body_directory = watchPath, body_timestamp = None, body_total_files = 0,
                       body_total_directories = 0, body_tree = [],
                       body_error = Some ''No manifest file found. Click Refresh to generate one.''\<rparr>
         else (case fs_readFile w manifestPath of
                 Inl e \<Rightarrow> Failed 500 e
               | Inr content \<Rightarrow>
                   (let parsed = parseTextManifest content
                    in Json200 \<lparr>body_directory = or_else (manifest_directory parsed) watchPath,
                                body_timestamp =
                                  Some (or_else (manifest_timestamp parsed) (toISOString w (date_now w))),
                                body_total_files = total_files parsed,
                                body_total_directories = total_directories parsed,
                                body_tree = tree parsed, body_error = None\<rparr>)))"

subsection \<open>Notions used to state the properties of the tree\<close>

text \<open>The nodes of a tree and of a forest, parents first: the path and the type of each.\<close>

fun nodes_of :: "tree_node \<Rightarrow> (string \<times> entry_type) list" where
  "nodes_of (TreeNode p t s m c) =
     (p, t) # (case c of None \<Rightarrow> [] | Some cs \<Rightarrow> concat (map nodes_of cs))"

definition forest_nodes :: "tree_node list \<Rightarrow> (string \<times> entry_type) list" where
  "forest_nodes level = concat (map nodes_of level)"

text \<open>The leaf count: the number of nodes of type file.\<close>

definition count_files :: "tree_node list \<Rightarrow> nat" where
  "count_files level = length (filter (\<lambda>n. snd n = File) (forest_nodes level))"

text \<open>The number of directory nodes with a given path, anywhere in the forest.\<close>

definition dir_occurrences :: "string \<Rightarrow> tree_node list \<Rightarrow> nat" where
  "dir_occurrences p level = length (filter (\<lambda>n. n = (p, Directory)) (forest_nodes level))"

text \<open>The shape of a node: a file has a size and a modification text and no array of
  children; a directory has an array of children, in which no path occurs twice, and whose
  members have the shape in turn.\<close>

fun shaped :: "tree_node \<Rightarrow> bool" where
  "shaped (TreeNode p t s m c) =
     (case t of
        File \<Rightarrow> s \<noteq> None \<and> m \<noteq> None \<and> c = None
      | Directory \<Rightarrow>
          (case c of
             None \<Rightarrow> False
           | Some cs \<Rightarrow> distinct (map node_path cs) \<and> (\<forall>n \<in> set cs. shaped n)))"

definition forest_shaped :: "tree_node list \<Rightarrow> bool" where
  "forest_shaped level = (distinct (map node_path level) \<and> (\<forall>n \<in> set level. shaped n))"

text \<open>A node after some insertions, compared with the node before: the path, the type,
  the size and the modification text are the same, and the array of children, when there is
  one, still begins with the former children, each compared in the same way.\<close>

fun node_extends :: "tree_node \<Rightarrow> tree_node \<Rightarrow> bool" where
  "node_extends (TreeNode p t s m c) n' =
     (node_path n' = p \<and> node_type n' = t \<and> node_size n' = s \<and> node_modified n' = m \<and>
      (case c of
         None \<Rightarrow> node_children n' = None
       | Some cs \<Rightarrow>
           (case node_children n' of
              None \<Rightarrow> False
            | Some cs' \<Rightarrow> length cs \<le> length cs' \<and> list_all2 node_extends cs (take (length cs) cs'))))"

definition forest_extends :: "tree_node list \<Rightarrow> tree_node list \<Rightarrow> bool" where
  "forest_extends xs ys = (length xs \<le> length ys \<and> list_all2 node_extends xs (take (length xs) ys))"

text \<open>The value of \<open>currentPath\<close> after one more part.\<close>

definition next_path :: "string \<Rightarrow> string \<Rightarrow> string" where
  "next_path currentPath part = (if currentPath \<noteq> [] then currentPath @ ''/'' @ part else part)"

text \<open>The records of two files in one directory, and the tree built from them.\<close>

definition sample_records :: "file_record list" where
  "sample_records =
     [\<lparr>rec_path = ''.claude/PLAN.md'', rec_type = File, rec_size = 4422,
       rec_modified = ''2025-08-06 13:58:55''\<rparr>,
      \<lparr>rec_path = ''.claude/notes.txt'', rec_type = File, rec_size = 128,
       rec_modified = ''2025-08-07 09:00:00''\<rparr>]"

definition sample_tree :: "tree_node list" where
  "sample_tree =
     [TreeNode ''.claude'' Directory None None
        (Some [TreeNode ''.claude/PLAN.md'' File (Some 4422) (Some ''2025-08-06 13:58:55'') None,
               TreeNode ''.claude/notes.txt'' File (Some 128) (Some ''2025-08-07 09:00:00'') None])]"

text \<open>The values that \<open>currentPath\<close> takes while the parts of one path are walked.\<close>

fun cum_paths :: "string \<Rightarrow> string list \<Rightarrow> string list" where
  "cum_paths cur [] = []"
| "cum_paths cur (part # rest) = next_path cur part # cum_paths (next_path cur part) rest"

text \<open>The proper path prefixes of a path: its prefixes that are followed by a slash, that
  is, every directory that the path implies.\<close>

fun slash_prefixes :: "string \<Rightarrow> string list" where
  "slash_prefixes [] = []"
| "slash_prefixes (c # cs) =
     (if c = CHR ''/'' then [[]] else []) @ map ((#) c) (slash_prefixes cs)"

text \<open>A listing as a scan of a directory produces it: every record denotes a file, every
  path is relative (not empty, no leading slash), no path occurs twice, and no path of a
  file is also a directory implied by the path of a record.\<close>

definition consistent_listing :: "file_record list \<Rightarrow> bool" where
  "consistent_listing fs =
     ((\<forall>f \<in> set fs. rec_type f = File \<and> rec_path f \<noteq> [] \<and> hd (rec_path f) \<noteq> CHR ''/'')
      \<and> distinct (map rec_path fs)
      \<and> (\<forall>f \<in> set fs. \<forall>g \<in> set fs. rec_path f \<notin> set (slash_prefixes (rec_path g))))"

text \<open>The place of a node: its path is the path of its parent with one more part.\<close>

definition is_child :: "string \<Rightarrow> string \<Rightarrow> bool" where
  "is_child cur p =
     (\<exists>part. CHR ''/'' \<notin> set part \<and> (cur = [] \<longrightarrow> part \<noteq> []) \<and> p = next_path cur part)"

fun sited :: "string \<Rightarrow> tree_node \<Rightarrow> bool" where
  "sited cur (TreeNode p t s m c) =
     (is_child cur p \<and>
      (case c of
         None \<Rightarrow> t = File
       | Some cs \<Rightarrow> t = Directory \<and> distinct (map node_path cs) \<and> (\<forall>n \<in> set cs. sited p n)))"

definition forest_sited :: "string \<Rightarrow> tree_node list \<Rightarrow> bool" where
  "forest_sited cur level = (distinct (map node_path level) \<and> (\<forall>n \<in> set level. sited cur n))"

text \<open>Listings on which the count of leaves or of directory nodes is not the count of
  records or of directories: a path listed twice, a path listed both as a file and as
  a directory of another file, and a path with a leading slash.\<close>

definition twice_records :: "file_record list" where
  "twice_records =
     [\<lparr>rec_path = ''a/b'', rec_type = File, rec_size = 1, rec_modified = ''m''\<rparr>,
      \<lparr>rec_path = ''a/b'', rec_type = File, rec_size = 1, rec_modified = ''m''\<rparr>]"

definition clash_records :: "file_record list" where
  "clash_records =
     [\<lparr>rec_path = ''a'', rec_type = File, rec_size = 1, rec_modified = ''m''\<rparr>,
      \<lparr>rec_path = ''a/b'', rec_type = File, rec_size = 2, rec_modified = ''m''\<rparr>]"

definition rooted_records :: "file_record list" where
  "rooted_records =
     [\<lparr>rec_path = ''/a/b'', rec_type = File, rec_size = 1, rec_modified = ''m''\<rparr>,
      \<lparr>rec_path = ''a/c'', rec_type = File, rec_size = 2, rec_modified = ''m''\<rparr>]"

subsection \<open>Well-formed manifest text\<close>

text \<open>
  The text format of a manifest: header lines (the banner, the \<open>Timestamp:\<close> and
  \<open>Directory:\<close> lines), the \<open>File Listing:\<close> header and its separator, one line for each
  entry, and, when there is a summary, the \<open>Summary:\<close> header, its separator and the two
  totals. An entry is a path, the digits of a size and a modification text; a total is
  given by its digits. Every line ends with a line feed.
\<close>

definition render_entry :: "string \<times> string \<times> string \<Rightarrow> string" where
  "render_entry e =
     (case e of (p, ds, m) \<Rightarrow>
        [CHR 0x22] @ p @ [CHR 0x22] @ '' ('' @ ds @ '' bytes) - Modified: '' @ m)"

definition manifest_lines ::
  "string list \<Rightarrow> (string \<times> string \<times> string) list \<Rightarrow> (string \<times> string) option \<Rightarrow> string list" where
  "manifest_lines header entries summary =
     header @ [''File Listing:'', ''-------------''] @ map render_entry entries @
     (case summary of
        None \<Rightarrow> []
      | Some (tf, td) \<Rightarrow>
          [''Summary:'', ''--------'', ''Total Files: '' @ tf, ''Total Directories: '' @ td])"

definition manifest_text ::
  "string list \<Rightarrow> (string \<times> string \<times> string) list \<Rightarrow> (string \<times> string) option \<Rightarrow> string" where
  "manifest_text header entries summary =
     concat (map (\<lambda>l. l @ [CHR 0x0A]) (manifest_lines header entries summary))"

text \<open>A header line is any line that opens no section. The path of an entry is relative
  and has no double quote; the modification text is not empty; no item contains a line
  break. A number is a non-empty run of decimal digits.\<close>

definition wf_header_line :: "string \<Rightarrow> bool" where
  "wf_header_line l =
     (CHR 0x0A \<notin> set l \<and> \<not> startsWith l ''File Listing:'' \<and> \<not> startsWith l ''Summary:'')"

definition wf_number :: "string \<Rightarrow> bool" where
  "wf_number ds = (ds \<noteq> [] \<and> list_all is_digit ds)"

definition wf_entry :: "string \<times> string \<times> string \<Rightarrow> bool" where
  "wf_entry e =
     (case e of (p, ds, m) \<Rightarrow>
        p \<noteq> [] \<and> hd p \<noteq> CHR ''/'' \<and> CHR 0x22 \<notin> set p \<and> CHR 0x0A \<notin> set p
        \<and> wf_number ds
        \<and> m \<noteq> [] \<and> \<not> list_ex is_line_terminator m)"

definition wf_summary :: "(string \<times> string) option \<Rightarrow> bool" where
  "wf_summary summary =
     (case summary of
        None \<Rightarrow> True
      | Some (tf, td) \<Rightarrow> wf_number tf \<and> wf_number td)"

definition wf_manifest ::
  "string list \<Rightarrow> (string \<times> string \<times> string) list \<Rightarrow> (string \<times> string) option \<Rightarrow> bool" where
  "wf_manifest header entries summary =
     (list_all wf_header_line header \<and> list_all wf_entry entries \<and> wf_summary summary)"

text \<open>The record that an entry stands for, and the directories that a listing implies.\<close>

definition entry_record :: "string \<times> string \<times> string \<Rightarrow> file_record" where
  "entry_record e =
     (case e of (p, ds, m) \<Rightarrow>
        \<lparr>rec_path = p, rec_type = File, rec_size = js_number (digits_value ds),
          rec_modified = trim m\<rparr>)"

definition implied_directories :: "(string \<times> string \<times> string) list \<Rightarrow> string set" where
  "implied_directories entries = (\<Union>e \<in> set entries. set (slash_prefixes (fst e)))"

text \<open>The header and the entries of a manifest of two files.\<close>

definition sample_header :: "string list" where
  "sample_header =
     [''======================================================================'',
      ''LHI Directory Monitor - MANIFEST'',
      ''Monitor PID: 2113'',
      ''Timestamp: 2026-01-19 04:10:57 PM EST'',
      ''Directory: /Users/me/lhi_scripts'',
      []]"

definition sample_entries :: "(string \<times> string \<times> string) list" where
  "sample_entries =
     [(''.claude/PLAN.md'', ''4422'', ''2025-08-06 13:58:55''),
      (''.claude/notes.txt'', ''128'', ''2025-08-07 09:00:00'')]"

text \<open>The totals of a summary are small when a JavaScript number holds them exactly.\<close>

definition small_totals :: "(string \<times> string) option \<Rightarrow> bool" where
  "small_totals summary =
     (case summary of
        None \<Rightarrow> True
      | Some (tf, td) \<Rightarrow> digits_value tf < 2 ^ 53 \<and> digits_value td < 2 ^ 53)"

text \<open>The variables of the scan that the counts depend on.\<close>

definition scan_view :: "scan_state \<Rightarrow> nat \<times> nat \<times> file_record list \<times> bool \<times> bool" where
  "scan_view st =
     (total_files_field st, total_directories_field st, files st, inFileListing st, inSummary st)"

text \<open>The text of that manifest with the summary \<open>Total Files: 7\<close>, \<open>Total Directories: 0\<close>,
  and with a total of files of \<open>2 ^ 53 + 1\<close>.\<close>

definition sample_manifest_text :: string where
  "sample_manifest_text =
     ''======================================================================\<newline>''
     @ ''LHI Directory Monitor - MANIFEST\<newline>''
     @ ''Monitor PID: 2113\<newline>''
     @ ''Timestamp: 2026-01-19 04:10:57 PM EST\<newline>''
     @ ''Directory: /Users/me/lhi_scripts\<newline>''
     @ ''\<newline>''
     @ ''File Listing:\<newline>''
     @ ''-------------\<newline>''
     @ [CHR 0x22] @ ''.claude/PLAN.md'' @ [CHR 0x22] @ '' (4422 bytes) - Modified: 2025-08-06 13:58:55\<newline>''
     @ [CHR 0x22] @ ''.claude/notes.txt'' @ [CHR 0x22] @ '' (128 bytes) - Modified: 2025-08-07 09:00:00\<newline>''
     @ ''Summary:\<newline>''
     @ ''--------\<newline>''
     @ ''Total Files: 7\<newline>''
     @ ''Total Directories: 0\<newline>''"

definition huge_manifest_text :: string where
  "huge_manifest_text =
     ''======================================================================\<newline>''
     @ ''LHI Directory Monitor - MANIFEST\<newline>''
     @ ''Monitor PID: 2113\<newline>''
     @ ''Timestamp: 2026-01-19 04:10:57 PM EST\<newline>''
     @ ''Directory: /Users/me/lhi_scripts\<newline>''
     @ ''\<newline>''
     @ ''File Listing:\<newline>''
     @ ''-------------\<newline>''
     @ [CHR 0x22] @ ''.claude/PLAN.md'' @ [CHR 0x22] @ '' (4422 bytes) - Modified: 2025-08-06 13:58:55\<newline>''
     @ [CHR 0x22] @ ''.claude/notes.txt'' @ [CHR 0x22] @ '' (128 bytes) - Modified: 2025-08-07 09:00:00\<newline>''
     @ ''Summary:\<newline>''
     @ ''--------\<newline>''
     @ ''Total Files: 9007199254740993\<newline>''
     @ ''Total Directories: 1\<newline>''"

subsection \<open>Facts about the string primitives\<close>

lemma split_on_not_Nil: "split_on sep s \<noteq> []"
  by (induction s) (simp_all add: Let_def)

lemma endsWith_slash: "endsWith t ''/'' = (t \<noteq> [] \<and> last t = CHR ''/'')"
proof (cases t rule: rev_cases)
  case Nil
  then show ?thesis by (simp add: endsWith_def)
next
  case (snoc ys y)
  then show ?thesis by (simp add: endsWith_def)
qed

lemma parseExcludes_loop_acc:
  "parseExcludes_loop ls acc =
     acc @ map (\<lambda>t. \<lparr>pattern = t, isDirectory = (t \<noteq> [] \<and> last t = CHR ''/'')\<rparr>)
             (filter kept_line (map trim ls))"
  by (induction ls arbitrary: acc) (simp_all add: Let_def kept_line_def endsWith_slash)

lemma split_on_no_sep: "sep \<notin> set d \<Longrightarrow> split_on sep d = [d]"
  by (induction d) (auto simp: Let_def)

lemma split_on_append_sep:
  "sep \<notin> set d \<Longrightarrow> split_on sep (d @ sep # t) = d # split_on sep t"
  by (induction d) (auto simp: Let_def)

lemma hd_split_on_Cons: "c \<noteq> sep \<Longrightarrow> hd (split_on sep (c # cs)) \<noteq> []"
  by (simp add: Let_def)

lemma trim_Nil_or_hd: "trim s = [] \<or> \<not> is_space (hd (trim s))"
proof (cases "dropWhile is_space s")
  case Nil
  show ?thesis unfolding trim_def Nil by simp
next
  case (Cons x xs)
  then have nx: "\<not> is_space x"
    by (metis hd_dropWhile list.sel(1) list.distinct(1))
  have "dropWhile is_space (rev xs @ [x]) = dropWhile is_space (rev xs) @ [x]"
    using nx by (induction "rev xs" arbitrary: xs) (simp_all add: dropWhile_append)
  then show ?thesis using Cons nx by (simp add: trim_def)
qed

lemma newline_is_space: "is_space (CHR 0x0A)"
  by (simp add: is_space_def)

lemma probe_pids_Nil_iff: "probe_pids out = [] \<longleftrightarrow> trim out = []"
proof
  assume "trim out = []"
  then show "probe_pids out = []" by (simp add: probe_pids_def)
next
  assume a: "probe_pids out = []"
  show "trim out = []"
  proof (rule ccontr)
    assume n: "trim out \<noteq> []"
    then obtain c cs where t: "trim out = c # cs" by (cases "trim out") auto
    with trim_Nil_or_hd [of out] have "\<not> is_space c" by simp
    then have "c \<noteq> CHR 0x0A" using newline_is_space by auto
    then have "hd (split_on CHR 0x0A (c # cs)) \<noteq> []" by (rule hd_split_on_Cons)
    moreover have "split_on CHR 0x0A (c # cs) \<noteq> []" by (rule split_on_not_Nil)
    ultimately have "\<exists>x \<in> set (split_on CHR 0x0A (c # cs)). x \<noteq> []"
      by (metis hd_in_set)
    then have "filter (\<lambda>p. p \<noteq> []) (split_on CHR 0x0A (c # cs)) \<noteq> []"
      by (simp add: filter_empty_conv)
    with a t show False by (simp add: probe_pids_def)
  qed
qed

lemma is_digit_char_of: "(d::nat) < 10 \<Longrightarrow> is_digit (char_of (48 + d))"
  by (simp add: is_digit_def)

lemma digit_val_char_of: "(d::nat) < 10 \<Longrightarrow> digit_val (char_of (48 + d)) = d"
  by (simp add: digit_val_def)

lemma show_nat_digits: "\<forall>c \<in> set (show_nat n). is_digit c"
proof (induction n rule: show_nat.induct)
  case (1 n)
  show ?case
  proof (cases "n < 10")
    case True
    then show ?thesis by (subst show_nat.simps) (simp add: is_digit_char_of)
  next
    case False
    then have "\<forall>c \<in> set (show_nat (n div 10)). is_digit c" using 1 by simp
    moreover have "is_digit (char_of (48 + n mod 10))" by (rule is_digit_char_of) simp
    ultimately show ?thesis using False by (subst show_nat.simps) simp
  qed
qed

lemma show_nat_not_Nil: "show_nat n \<noteq> []"
  by (subst show_nat.simps) simp

lemma digits_value_snoc: "digits_value (ds @ [c]) = 10 * digits_value ds + digit_val c"
  by (simp add: digits_value_def)

lemma digits_value_show_nat: "digits_value (show_nat n) = n"
proof (induction n rule: show_nat.induct)
  case (1 n)
  show ?case
  proof (cases "n < 10")
    case True
    then show ?thesis by (subst show_nat.simps) (simp add: digits_value_def digit_val_char_of)
  next
    case False
    then have "digits_value (show_nat (n div 10)) = n div 10" using 1 by simp
    then have "digits_value (show_nat (n div 10) @ [char_of (48 + n mod 10)]) = n"
      by (simp add: digits_value_snoc digit_val_char_of)
    then show ?thesis using False by (subst show_nat.simps) simp
  qed
qed

lemma digit_not_space: "is_digit c \<Longrightarrow> \<not> is_space c"
  by (auto simp: is_digit_def is_space_def)

lemma digit_not_sign: "is_digit c \<Longrightarrow> c \<noteq> CHR ''+'' \<and> c \<noteq> CHR ''-'' \<and> c \<noteq> CHR ''x'' \<and> c \<noteq> CHR ''X'' \<and> c \<noteq> CHR 0x0A"
  by (auto simp: is_digit_def)

subsection \<open>The exclude parser\<close>

text \<open>
  C9. For every excludes-file text, \<open>parseExcludes\<close> returns, in order, one pattern for each
  line whose trimmed form is neither empty nor starts with \<open>#\<close>; the pattern is the trimmed
  line, and it is marked as a directory exactly when the trimmed line ends with a slash.
  The text with the line \<open>node_modules/\<close>, a blank line and a comment line gives exactly one
  pattern, marked as a directory.
\<close>

theorem parseExcludes_refines_spec:
  "parseExcludes content = excludes_spec content
   \<and> parseExcludes ''node_modules/\<newline>\<newline># build output\<newline>''
       = [\<lparr>pattern = ''node_modules/'', isDirectory = True\<rparr>]"
proof -
  have general: "\<And>c. parseExcludes c = excludes_spec c"
    by (simp add: parseExcludes_def excludes_spec_def parseExcludes_loop_acc)
  have "excludes_spec ''node_modules/\<newline>\<newline># build output\<newline>''
          = [\<lparr>pattern = ''node_modules/'', isDirectory = True\<rparr>]"
    by (simp add: excludes_spec_def kept_line_def trim_def is_space_def startsWith_def Let_def)
  with general show ?thesis by simp
qed

theorem parseExcludes_refines_spec_witness:
  "parseExcludes ''  dist/  \<newline>#x\<newline>*.log'' =
     [\<lparr>pattern = ''dist/'', isDirectory = True\<rparr>, \<lparr>pattern = ''*.log'', isDirectory = False\<rparr>]"
  using parseExcludes_refines_spec [of "''  dist/  \<newline>#x\<newline>*.log''"]
  by (simp add: excludes_spec_def kept_line_def trim_def is_space_def startsWith_def Let_def)

subsection \<open>The exclude resolver\<close>

lemma try_excludes_file_content:
  "try_excludes_file w p name =
     (case file_content w p of
        None \<Rightarrow> Inl (if fs_access w p then projl (fs_readFile w p) else ''ENOENT'')
      | Some c \<Rightarrow> Inr (Json200 \<lparr>patterns = parseExcludes c, source = Some name\<rparr>))"
  by (simp add: try_excludes_file_def file_content_def split: sum.splits)

text \<open>
  What the handler computes, in terms of the files that are present and can be read: the
  patterns of \<open>.lhi_excludes\<close> when it is such a file; otherwise those of \<open>.gitignore\<close>
  when it is such a file; otherwise the empty sequence with no source.
\<close>

theorem excludes_handler_priority:
  "excludes_handler w d =
     (case file_content w (path_join w d ''.lhi_excludes'') of
        Some c \<Rightarrow> Json200 \<lparr>patterns = parseExcludes c, source = Some ''.lhi_excludes''\<rparr>
      | None \<Rightarrow>
          (case file_content w (path_join w d ''.gitignore'') of
             Some c \<Rightarrow> Json200 \<lparr>patterns = parseExcludes c, source = Some ''.gitignore''\<rparr>
           | None \<Rightarrow> Json200 \<lparr>patterns = [], source = None\<rparr>))"
  by (simp add: excludes_handler_def Let_def try_excludes_file_content split: option.splits)

theorem excludes_handler_priority_witness:
  "excludes_handler os_plain ''/w''
     = Json200 \<lparr>patterns = [\<lparr>pattern = ''dist/'', isDirectory = True\<rparr>], source = Some ''.gitignore''\<rparr>
   \<and> excludes_handler os_plain ''/v'' = Json200 \<lparr>patterns = [], source = None\<rparr>"
  using excludes_handler_priority [where w = os_plain and d = "''/w''"]
        excludes_handler_priority [where w = os_plain and d = "''/v''"]
  by (simp add: os_plain_def file_content_def parseExcludes_def parseExcludes_loop_acc
        kept_line_def trim_def is_space_def startsWith_def Let_def)

text \<open>
  The manifest query, for comparison: its \<open>fs.readFile\<close> is outside the inner \<open>try\<close>, and a
  manifest that is present and cannot be read is answered with status 500.
\<close>

lemma manifest_handler_unreadable:
  "fs_access w (path_join w d ''.lhi_manifest'') \<Longrightarrow>
   fs_readFile w (path_join w d ''.lhi_manifest'') = Inl e \<Longrightarrow>
   manifest_handler w d = Failed 500 e"
  by (simp add: manifest_handler_def)

text \<open>
  C3. The claim: when the primary file \<open>.lhi_excludes\<close> is present, its parsed patterns
  are returned with the primary source. The handler does otherwise when the primary entry
  is present and cannot be read: the \<open>catch\<close> of its first \<open>try\<close>, written for a file that is
  not found, also takes the error of \<open>fs.readFile\<close>. In \<open>os_unreadable\<close> the entry
  \<open>/w/.lhi_excludes\<close> is present, \<open>fs.readFile\<close> rejects on it, and the handler answers
  with the patterns of \<open>.gitignore\<close> and the fallback as the source.
\<close>

theorem excludes_handler_unreadable_primary:
  "fs_access os_unreadable (path_join os_unreadable ''/w'' ''.lhi_excludes'')
   \<and> excludes_handler os_unreadable ''/w''
       = Json200 \<lparr>patterns = [\<lparr>pattern = ''dist/'', isDirectory = True\<rparr>],
                  source = Some ''.gitignore''\<rparr>"
  by (simp add: os_unreadable_def os_plain_def excludes_handler_def try_excludes_file_def
        parseExcludes_def trim_def is_space_def startsWith_def endsWith_def Let_def)

subsection \<open>Registry add\<close>

text \<open>
  C7. Registry add validates its input before any mutation: a request with no directory
  (or an empty one) and a request whose path does not exist are both answered with status
  400 and a descriptive message, and no command has been executed; whenever the registration
  tool is executed, the existence check has come first and has succeeded.
\<close>

theorem registry_add_validates_first:
  "(directory = None \<or> directory = Some [] \<longrightarrow>
      registry_add w directory = (Failed 400 ''Directory path is required'', []))
   \<and> (directory = Some d \<and> d \<noteq> [] \<and> \<not> fs_access w d \<longrightarrow>
      registry_add w directory = (Failed 400 (''Directory does not exist: '' @ d), [Access d]))
   \<and> ((\<exists>a \<in> set (snd (registry_add w directory)). is_exec a) \<longrightarrow>
      (\<exists>d. directory = Some d \<and> d \<noteq> [] \<and> fs_access w d
           \<and> snd (registry_add w directory) = [Access d, Exec (registry_add_command w d)]))"
  by (auto simp: registry_add_def is_exec_def split: option.splits sum.splits)

theorem registry_add_validates_first_witness:
  "registry_add os_plain None = (Failed 400 ''Directory path is required'', [])
   \<and> registry_add os_plain (Some ''/nowhere'')
       = (Failed 400 ''Directory does not exist: /nowhere'', [Access ''/nowhere''])
   \<and> snd (registry_add os_plain (Some ''/w''))
       = [Access ''/w'', Exec ''bash \"/m/src/lhi_directory_monitor_registry.sh\" add \"/w\"'']"
proof -
  have present: "fs_access os_plain ''/w''" and absent: "\<not> fs_access os_plain ''/nowhere''"
    by (simp_all add: os_plain_def)
  have cmd: "registry_add_command os_plain ''/w''
               = ''bash \"/m/src/lhi_directory_monitor_registry.sh\" add \"/w\"''"
    by (simp add: registry_add_command_def REGISTRY_SCRIPT_def os_plain_def)
  have 1: "registry_add os_plain None = (Failed 400 ''Directory path is required'', [])"
    using registry_add_validates_first [where directory = None and w = os_plain] by blast
  have 2: "registry_add os_plain (Some ''/nowhere'')
             = (Failed 400 (''Directory does not exist: '' @ ''/nowhere''), [Access ''/nowhere''])"
    using registry_add_validates_first
            [where directory = "Some ''/nowhere''" and d = "''/nowhere''" and w = os_plain]
          absent
    by blast
  have 3: "snd (registry_add os_plain (Some ''/w''))
             = [Access ''/w'', Exec (registry_add_command os_plain ''/w'')]"
    using present by (simp add: registry_add_def split: sum.splits)
  show ?thesis unfolding 1 2 3 cmd by simp
qed

subsection \<open>The output of pgrep\<close>

lemma split_on_lines_append:
  "\<forall>n \<in> set ps. CHR 0x0A \<notin> set (f n) \<Longrightarrow> CHR 0x0A \<notin> set t \<Longrightarrow>
   split_on CHR 0x0A (concat (map (\<lambda>n. f n @ [CHR 0x0A]) ps) @ t) = map f ps @ [t]"
  by (induction ps) (simp_all add: split_on_no_sep split_on_append_sep)

lemma show_nat_no_newline: "CHR 0x0A \<notin> set (show_nat n)"
  using show_nat_digits [of n] digit_not_sign by blast

lemma show_nat_no_space: "\<forall>c \<in> set (show_nat n). \<not> is_space c"
  using show_nat_digits [of n] digit_not_space by blast

lemma trim_pgrep_output:
  "trim (pgrep_output (ps @ [p])) = concat (map (\<lambda>n. show_nat n @ [CHR 0x0A]) ps) @ show_nat p"
proof -
  let ?body = "concat (map (\<lambda>n. show_nat n @ [CHR 0x0A]) ps) @ show_nat p"
  have out: "pgrep_output (ps @ [p]) = ?body @ [CHR 0x0A]"
    by (simp add: pgrep_output_def)
  have "?body \<noteq> []" using show_nat_not_Nil by simp
  moreover have "\<not> is_space (hd ?body)"
  proof (cases ps)
    case Nil
    then show ?thesis using show_nat_no_space [of p] show_nat_not_Nil [of p]
      by (simp add: hd_in_set)
  next
    case (Cons q qs)
    then show ?thesis using show_nat_no_space [of q] show_nat_not_Nil [of q]
      by (simp add: hd_append hd_in_set)
  qed
  ultimately have front: "dropWhile is_space (?body @ [CHR 0x0A]) = ?body @ [CHR 0x0A]"
    by (cases ?body) auto
  have "\<not> is_space (last (show_nat p))"
    using show_nat_no_space [of p] show_nat_not_Nil [of p] by (simp add: last_in_set)
  then have "\<not> is_space (hd (rev ?body))"
    using show_nat_not_Nil [of p] by (simp add: hd_rev hd_append)
  moreover have "rev ?body \<noteq> []" using show_nat_not_Nil by simp
  ultimately have rear: "dropWhile is_space (rev (?body @ [CHR 0x0A])) = rev ?body"
    using newline_is_space by (cases "rev ?body") auto
  show ?thesis unfolding out trim_def front rear by simp
qed

lemma probe_pids_pgrep_output: "probe_pids (pgrep_output ps) = map show_nat ps"
proof (cases ps rule: rev_cases)
  case Nil
  then show ?thesis by (simp add: probe_pids_def pgrep_output_def trim_def)
next
  case (snoc qs q)
  have "split_on CHR 0x0A (trim (pgrep_output (qs @ [q]))) = map show_nat qs @ [show_nat q]"
    unfolding trim_pgrep_output
    by (rule split_on_lines_append) (simp_all add: show_nat_no_newline)
  then show ?thesis using snoc show_nat_not_Nil by (simp add: probe_pids_def)
qed

subsection \<open>Start\<close>

text \<open>
  C4. Start is idempotent with respect to a running monitor: when the probe finds a matching
  process in the output of \<open>pgrep\<close>, the handler answers "already running" and spawns nothing;
  when the probe finds none, it spawns the detached watch process and waits 2000 ms before
  it answers; a process is spawned in no other case.
\<close>

theorem start_handler_idempotent:
  "(execAsync w (pgrep_command d) = Inr out \<and> probe_pids out \<noteq> [] \<longrightarrow>
      start_handler w d =
        (Json200 \<lparr>success = True, message = ''Monitor already running for this directory''\<rparr>,
         [Exec (pgrep_command d)]))
   \<and> (execAsync w (pgrep_command d) = Inr out \<and> probe_pids out = [] \<longrightarrow>
      start_handler w d =
        (Json200 \<lparr>success = True, message = ''Monitor started for '' @ d\<rparr>,
         [Exec (pgrep_command d),
          Spawn ''bash'' [path_join w (MONITOR_DIR w) ''src/lhi_directory_monitor.sh'', ''-d'', d, ''--verbose'']
            True (MONITOR_DIR w),
          Unref, Sleep 2000]))
   \<and> ((\<exists>a \<in> set (snd (start_handler w d)). is_spawn a) \<longleftrightarrow>
        (\<exists>t. execAsync w (pgrep_command d) = Inr t \<and> probe_pids t = []))"
  by (auto simp: start_handler_def is_spawn_def probe_pids_Nil_iff Let_def split: sum.splits)

theorem start_handler_idempotent_witness:
  "start_handler os_plain ''/w''
     = (Json200 \<lparr>success = True, message = ''Monitor already running for this directory''\<rparr>,
        [Exec ''pgrep -f \"fswatch.*/w\" || true''])
   \<and> start_handler os_plain ''/v''
     = (Json200 \<lparr>success = True, message = ''Monitor started for /v''\<rparr>,
        [Exec ''pgrep -f \"fswatch.*/v\" || true'',
         Spawn ''bash'' [''/m/src/lhi_directory_monitor.sh'', ''-d'', ''/v'', ''--verbose''] True ''/m'',
         Unref, Sleep 2000])"
proof -
  have w: "execAsync os_plain (pgrep_command ''/w'') = Inr (pgrep_output [2113, 45])"
    by (simp add: os_plain_def)
  have v: "execAsync os_plain (pgrep_command ''/v'') = Inr []"
    by (simp add: os_plain_def pgrep_command_def)
  have pw: "probe_pids (pgrep_output [2113, 45]) \<noteq> []"
    by (simp add: probe_pids_pgrep_output)
  have pv: "probe_pids [] = []"
    by (simp add: probe_pids_def trim_def)
  from start_handler_idempotent [where w = os_plain and d = "''/w''" and out = "pgrep_output [2113, 45]"]
       start_handler_idempotent [where w = os_plain and d = "''/v''" and out = "[]"]
       w v pw pv
  show ?thesis by (simp add: pgrep_command_def os_plain_def)
qed

subsection \<open>Status\<close>

lemma js_number_exact: "n < 2 ^ 53 \<Longrightarrow> js_number n = n"
  by (simp add: js_number_def)

lemma js_number_rounds:
  "js_number 9007199254740993 = 9007199254740992"
  "js_number 9007199254740995 = 9007199254740996"
  "js_number 18014398509481990 = 18014398509481992"
  by (simp_all add: js_number_def Let_def bit_length.simps)

lemma parseInt_sample: "parseInt ''2113'' = Some 2113"
  by (simp add: parseInt_def parseInt10_def Let_def is_space_def strip_sign_def sign_of_def
        startsWith_def is_digit_def digits_value_def digit_val_def js_number_def)

text \<open>
  C5. The claim: with no matching watch process the probe answers \<open>running = false\<close> with
  no pid and no uptime; with a match it answers \<open>running = true\<close> and the first identifier,
  and a failure of the separate uptime lookup leaves the uptime absent. The handler does
  otherwise. The lookup command ends with \<open>|| true\<close>, so a \<open>ps\<close> that fails still resolves,
  with nothing printed, and the handler stores the trimmed output: in \<open>os_gone\<close>, where \<open>ps\<close>
  finds no process 2113 and exits with status 1, the uptime of the answer is the empty
  string and not absent. The \<open>catch\<close> that would leave it absent runs only when the call
  itself rejects.
\<close>

theorem status_handler_lookup_failure:
  "status_handler os_gone ''/w'' =
     Json200 \<lparr>running = True, pid = Some 2113, watchedPath = ''/w'', uptime = Some [],
              lastManifestUpdate = None, error_message = None\<rparr>"
proof -
  have pg: "execAsync os_gone (pgrep_command ''/w'') = Inr ''2113\<newline>''"
    by (simp add: os_gone_def pgrep_command_def exec_or_true_def)
  have pids: "probe_pids ''2113\<newline>'' = [''2113'']"
    by (simp add: probe_pids_def trim_def is_space_def Let_def)
  have ps: "execAsync os_gone (ps_command ''2113'') = Inr []"
    by (simp add: os_gone_def ps_command_def exec_or_true_def)
  have mt: "manifest_mtime os_gone ''/w'' = None"
    by (simp add: manifest_mtime_def os_gone_def os_plain_def)
  show ?thesis
    unfolding status_handler_def pg sum.case Let_def pids list.case ps parseInt_sample mt
    by (simp add: trim_def)
qed

subsection \<open>The change log\<close>




















subsection \<open>The manifest query\<close>

text \<open>
  C6. A missing manifest is expected absence: when the manifest file of a directory does
  not exist, the query answers with a normal response whose counts are zero and whose tree is
  empty, with a descriptive message, and not with an error status.
\<close>

theorem manifest_handler_missing:
  "\<not> fs_access w (path_join w d ''.lhi_manifest'') \<Longrightarrow>
   manifest_handler w d =
     Json200 \<lparr>body_directory = d, body_timestamp = None, body_total_files = 0,
              body_total_directories = 0, body_tree = [],
              body_error = Some ''No manifest file found. Click Refresh to generate one.''\<rparr>"
  by (simp add: manifest_handler_def)

theorem manifest_handler_missing_witness:
  "\<not> fs_access os_plain (path_join os_plain ''/w'' ''.lhi_manifest'')
   \<and> manifest_handler os_plain ''/w'' =
     Json200 \<lparr>body_directory = ''/w'', body_timestamp = None, body_total_files = 0,
              body_total_directories = 0, body_tree = [],
              body_error = Some ''No manifest file found. Click Refresh to generate one.''\<rparr>"
proof -
  have a: "\<not> fs_access os_plain (path_join os_plain ''/w'' ''.lhi_manifest'')"
    by (simp add: os_plain_def)
  from a manifest_handler_missing [OF a] show ?thesis by (rule conjI)
qed

subsection \<open>The shape of the tree\<close>

lemma forest_extends_Nil: "forest_extends [] ys"
  by (simp add: forest_extends_def)

lemma forest_extends_Cons:
  "forest_extends (x # xs) (y # ys) = (node_extends x y \<and> forest_extends xs ys)"
  by (auto simp: forest_extends_def)

lemma node_extends_children:
  "node_extends (TreeNode p t s m (Some cs)) (TreeNode p t s m (Some cs')) = forest_extends cs cs'"
  by (simp add: forest_extends_def)

lemma node_extends_refl: "node_extends n n"
proof (induction n)
  case (TreeNode p t s m c)
  show ?case
  proof (cases c)
    case None
    then show ?thesis by simp
  next
    case (Some cs)
    have "list_all2 node_extends cs cs"
      using TreeNode Some by (intro list.rel_refl_strong) auto
    then show ?thesis using Some by simp
  qed
qed

lemma forest_extends_append: "forest_extends xs (xs @ ys)"
  by (simp add: forest_extends_def list.rel_refl node_extends_refl)

lemma forest_extends_refl: "forest_extends xs xs"
  using forest_extends_append [of xs "[]"] by simp

lemma find_path_Some:
  "find (\<lambda>e. node_path e = p) xs = Some e \<Longrightarrow> e \<in> set xs \<and> node_path e = p"
  by (induction xs) (auto split: if_splits)

lemma find_path_None:
  "find (\<lambda>e. node_path e = p) xs = None \<Longrightarrow> p \<notin> set (map node_path xs)"
  by (induction xs) (auto split: if_splits)

lemma replace_first_paths:
  "node_path n = p \<Longrightarrow> map node_path (replace_first p n xs) = map node_path xs"
  by (induction xs) auto

lemma replace_first_set: "set (replace_first p n xs) \<subseteq> insert n (set xs)"
  by (induction xs) auto

lemma replace_first_extends:
  "find (\<lambda>e. node_path e = p) xs = Some e \<Longrightarrow> node_extends e n \<Longrightarrow>
   forest_extends xs (replace_first p n xs)"
  by (induction xs) (auto simp: forest_extends_Cons forest_extends_refl node_extends_refl split: if_splits)

lemma replace_first_new:
  "find (\<lambda>e. node_path e = p) xs = None \<Longrightarrow> node_path e' = p \<Longrightarrow>
   replace_first p n (xs @ [e']) = xs @ [n]"
  by (induction xs) (auto split: if_splits)
lemma insert_path_new_file:
  assumes "find (\<lambda>e. node_path e = next_path cur part) level = None"
    and "rec_type f \<noteq> Directory"
  shows "insert_path f cur [part] level =
           level @ [TreeNode (next_path cur part) File (Some (rec_size f)) (Some (rec_modified f)) None]"
  using assms by (simp add: next_path_def Let_def)

lemma insert_path_new_dir:
  assumes "find (\<lambda>e. node_path e = next_path cur part) level = None"
    and "rest \<noteq> [] \<or> rec_type f = Directory"
  shows "insert_path f cur (part # rest) level =
           level @ [TreeNode (next_path cur part) Directory
                      (if rest = [] then Some (rec_size f) else None)
                      (if rest = [] then Some (rec_modified f) else None)
                      (Some (insert_path f (next_path cur part) rest []))]"
proof -
  let ?new = "TreeNode (next_path cur part) Directory
                (if rest = [] then Some (rec_size f) else None)
                (if rest = [] then Some (rec_modified f) else None) (Some [])"
  have "insert_path f cur (part # rest) level =
          replace_first (next_path cur part)
            (TreeNode (next_path cur part) Directory
               (if rest = [] then Some (rec_size f) else None)
               (if rest = [] then Some (rec_modified f) else None)
               (Some (insert_path f (next_path cur part) rest [])))
            (level @ [?new])"
    using assms by (auto simp: next_path_def Let_def)
  then show ?thesis using assms(1) by (simp add: replace_first_new)
qed

lemma insert_path_found_file:
  assumes "find (\<lambda>e. node_path e = next_path cur part) level = Some e"
    and "node_children e = None"
  shows "insert_path f cur (part # rest) level = insert_path f (next_path cur part) rest level"
  using assms by (simp add: next_path_def Let_def)

lemma insert_path_found_dir:
  assumes "find (\<lambda>e. node_path e = next_path cur part) level = Some e"
    and "node_children e = Some cs"
  shows "insert_path f cur (part # rest) level =
           replace_first (next_path cur part)
             (TreeNode (node_path e) (node_type e) (node_size e) (node_modified e)
                (Some (insert_path f (next_path cur part) rest cs)))
             level"
  using assms by (simp add: next_path_def Let_def)

lemma shaped_children:
  "shaped e \<Longrightarrow> node_children e = Some cs \<Longrightarrow> node_type e = Directory \<and> forest_shaped cs"
  by (cases e) (auto simp: forest_shaped_def split: entry_type.splits)

lemma insert_path_shape:
  "forest_shaped level \<Longrightarrow>
   forest_shaped (insert_path f cur parts level) \<and> forest_extends level (insert_path f cur parts level)"
proof (induction parts arbitrary: cur level)
  case Nil
  then show ?case by (simp add: forest_extends_refl)
next
  case (Cons part rest)
  let ?p = "next_path cur part"
  show ?case
  proof (cases "find (\<lambda>e. node_path e = ?p) level")
    case None
    have fresh: "?p \<notin> set (map node_path level)" using None by (rule find_path_None)
    show ?thesis
    proof (cases "rest = [] \<and> rec_type f \<noteq> Directory")
      case True
      then have "insert_path f cur (part # rest) level =
          level @ [TreeNode ?p File (Some (rec_size f)) (Some (rec_modified f)) None]"
        using insert_path_new_file [OF None] by simp
      then show ?thesis using Cons.prems fresh
        by (auto simp: forest_shaped_def forest_extends_append)
    next
      case False
      then have c: "rest \<noteq> [] \<or> rec_type f = Directory" by (cases "rec_type f") auto
      have sub: "forest_shaped (insert_path f ?p rest [])"
        using Cons.IH [of "[]" ?p] by (simp add: forest_shaped_def)
      have "shaped (TreeNode ?p Directory (if rest = [] then Some (rec_size f) else None)
                      (if rest = [] then Some (rec_modified f) else None)
                      (Some (insert_path f ?p rest [])))"
        using sub by (simp add: forest_shaped_def)
      then show ?thesis
        unfolding insert_path_new_dir [OF None c]
        using Cons.prems fresh by (auto simp: forest_shaped_def forest_extends_append)
    qed
  next
    case (Some e)
    from find_path_Some [OF Some] have e: "e \<in> set level" "node_path e = ?p" by auto
    show ?thesis
    proof (cases "node_children e")
      case None
      show ?thesis
        unfolding insert_path_found_file [OF Some None]
        using Cons.IH [OF Cons.prems] .
    next
      case (Some cs)
      have se: "shaped e" using Cons.prems e by (simp add: forest_shaped_def)
      from shaped_children [OF se Some] have dir: "node_type e = Directory" and cs: "forest_shaped cs"
        by auto
      let ?e' = "TreeNode (node_path e) (node_type e) (node_size e) (node_modified e)
                   (Some (insert_path f ?p rest cs))"
      from Cons.IH [OF cs, of ?p]
      have ih: "forest_shaped (insert_path f ?p rest cs)" "forest_extends cs (insert_path f ?p rest cs)"
        by auto
      have se': "shaped ?e'" using ih(1) dir by (simp add: forest_shaped_def)
      have ext: "node_extends e ?e'"
        using ih(2) Some by (cases e) (simp add: forest_extends_def)
      have paths: "map node_path (replace_first ?p ?e' level) = map node_path level"
        using e by (simp add: replace_first_paths)
      have "forest_shaped (replace_first ?p ?e' level)"
        using Cons.prems se' paths replace_first_set [of ?p ?e' level]
        by (auto simp: forest_shaped_def)
      moreover have "forest_extends level (replace_first ?p ?e' level)"
        using \<open>find (\<lambda>e. node_path e = ?p) level = Some e\<close> ext by (rule replace_first_extends)
      ultimately show ?thesis
        unfolding insert_path_found_dir [OF \<open>find (\<lambda>e. node_path e = ?p) level = Some e\<close> Some]
        by simp
    qed
  qed
qed
lemma forest_extends_nth:
  "forest_extends xs ys \<longleftrightarrow> length xs \<le> length ys \<and> (\<forall>i < length xs. node_extends (xs ! i) (ys ! i))"
  by (auto simp: forest_extends_def list_all2_conv_all_nth)

lemma node_extends_trans:
  "node_extends a b \<Longrightarrow> node_extends b c \<Longrightarrow> node_extends a c"
proof (induction a arbitrary: b c)
  case (TreeNode p t s m ch)
  show ?case
  proof (cases ch)
    case None
    then show ?thesis using TreeNode.prems by (cases b) auto
  next
    case (Some cs)
    obtain cs' where b: "b = TreeNode p t s m (Some cs')" and ab: "forest_extends cs cs'"
      using TreeNode.prems(1) Some
      by (cases b) (auto simp: forest_extends_def split: option.splits)
    obtain cs'' where c: "node_children c = Some cs''" "node_path c = p" "node_type c = t"
        "node_size c = s" "node_modified c = m" and bc: "forest_extends cs' cs''"
      using TreeNode.prems(2) b by (auto simp: forest_extends_def split: option.splits)
    have "forest_extends cs cs''"
      unfolding forest_extends_nth
    proof (intro conjI allI impI)
      show "length cs \<le> length cs''" using ab bc by (auto simp: forest_extends_nth)
    next
      fix i assume i: "i < length cs"
      then have 1: "node_extends (cs ! i) (cs' ! i)" using ab by (auto simp: forest_extends_nth)
      have "i < length cs'" using i ab by (auto simp: forest_extends_nth)
      then have 2: "node_extends (cs' ! i) (cs'' ! i)" using bc by (auto simp: forest_extends_nth)
      have "cs ! i \<in> set cs" using i by simp
      then show "node_extends (cs ! i) (cs'' ! i)"
        using TreeNode.IH [of cs "cs ! i"] Some 1 2 by auto
    qed
    then show ?thesis using Some c by (simp add: forest_extends_def)
  qed
qed

lemma forest_extends_trans:
  "forest_extends xs ys \<Longrightarrow> forest_extends ys zs \<Longrightarrow> forest_extends xs zs"
  unfolding forest_extends_nth
  by (meson le_trans less_le_trans node_extends_trans)

lemma buildTreeFromFiles_snoc:
  "buildTreeFromFiles (fs @ [f]) =
     insert_path f [] (split_on CHR ''/'' (rec_path f)) (buildTreeFromFiles fs)"
  by (simp add: buildTreeFromFiles_def)

lemma buildTreeFromFiles_shaped: "forest_shaped (buildTreeFromFiles fs)"
proof (induction fs rule: rev_induct)
  case Nil
  then show ?case by (simp add: buildTreeFromFiles_def forest_shaped_def)
next
  case (snoc f fs)
  then show ?case using insert_path_shape by (simp add: buildTreeFromFiles_snoc)
qed

lemma buildTreeFromFiles_grows:
  "forest_extends (buildTreeFromFiles fs) (buildTreeFromFiles (fs @ gs))"
proof (induction gs rule: rev_induct)
  case Nil
  then show ?case by (simp add: forest_extends_refl)
next
  case (snoc g gs)
  have "forest_extends (buildTreeFromFiles (fs @ gs)) (buildTreeFromFiles ((fs @ gs) @ [g]))"
    unfolding buildTreeFromFiles_snoc
    using insert_path_shape [OF buildTreeFromFiles_shaped] by blast
  with snoc show ?case using forest_extends_trans by fastforce
qed

text \<open>
  C10. The structural invariant of every tree that \<open>buildTreeFromFiles\<close> returns: in the
  root list and in every list of children no two nodes have the same path; a node of type
  file has a size and a modification text and no list of children; a node of type directory
  has a list of children. Processing further records never changes the path, the type, the
  size or the modification text of a node that exists, and never removes or reorders
  children: the lists only grow at their ends.
\<close>

theorem buildTreeFromFiles_invariant:
  "forest_shaped (buildTreeFromFiles fs)
   \<and> forest_extends (buildTreeFromFiles fs) (buildTreeFromFiles (fs @ gs))"
  using buildTreeFromFiles_shaped buildTreeFromFiles_grows by (rule conjI)
lemma buildTreeFromFiles_sample: "buildTreeFromFiles sample_records = sample_tree"
  by (simp add: buildTreeFromFiles_def sample_records_def sample_tree_def Let_def)

theorem buildTreeFromFiles_invariant_witness:
  "forest_shaped sample_tree \<and> forest_extends (buildTreeFromFiles (take 1 sample_records)) sample_tree"
  using buildTreeFromFiles_invariant [where fs = "take 1 sample_records" and gs = "drop 1 sample_records"]
        buildTreeFromFiles_invariant [where fs = "sample_records" and gs = "[]"]
  by (simp add: buildTreeFromFiles_sample)

subsection \<open>Paths and their parts\<close>

lemma split_on_no_sep_parts: "\<forall>p \<in> set (split_on sep s). sep \<notin> set p"
proof (induction s)
  case Nil
  then show ?case by simp
next
  case (Cons c cs)
  have ne: "split_on sep cs \<noteq> []" by (rule split_on_not_Nil)
  then have "hd (split_on sep cs) \<in> set (split_on sep cs)" by simp
  moreover have "set (tl (split_on sep cs)) \<subseteq> set (split_on sep cs)"
    using ne by (simp add: list.set_sel(2) subsetI)
  ultimately show ?case using Cons by (auto simp: Let_def)
qed

lemma cum_paths_pending:
  "cur \<noteq> [] \<Longrightarrow>
   cum_paths cur ((pend @ hd (split_on CHR ''/'' s)) # tl (split_on CHR ''/'' s))
     = map (\<lambda>q. cur @ ''/'' @ pend @ q) (slash_prefixes s @ [s])"
proof (induction s arbitrary: cur pend)
  case Nil
  then show ?case by (simp add: next_path_def)
next
  case (Cons c cs)
  have r: "split_on CHR ''/'' cs = hd (split_on CHR ''/'' cs) # tl (split_on CHR ''/'' cs)"
    using split_on_not_Nil [of "CHR ''/''" cs] by simp
  show ?case
  proof (cases "c = CHR ''/''")
    case True
    have "cum_paths (cur @ ''/'' @ pend) (([] @ hd (split_on CHR ''/'' cs)) # tl (split_on CHR ''/'' cs))
            = map (\<lambda>q. (cur @ ''/'' @ pend) @ ''/'' @ [] @ q) (slash_prefixes cs @ [cs])"
      by (rule Cons.IH) simp
    then have "cum_paths (cur @ ''/'' @ pend) (split_on CHR ''/'' cs)
            = map (\<lambda>q. cur @ ''/'' @ pend @ ''/'' @ q) (slash_prefixes cs @ [cs])"
      using r by simp
    then show ?thesis using True Cons.prems by (simp add: Let_def next_path_def)
  next
    case False
    have "cum_paths cur (((pend @ [c]) @ hd (split_on CHR ''/'' cs)) # tl (split_on CHR ''/'' cs))
            = map (\<lambda>q. cur @ ''/'' @ (pend @ [c]) @ q) (slash_prefixes cs @ [cs])"
      using Cons.prems by (rule Cons.IH)
    then show ?thesis using False by (simp add: Let_def)
  qed
qed

lemma cum_paths_pending_root:
  "pend \<noteq> [] \<or> (s \<noteq> [] \<and> hd s \<noteq> CHR ''/'') \<Longrightarrow>
   cum_paths [] ((pend @ hd (split_on CHR ''/'' s)) # tl (split_on CHR ''/'' s))
     = map (\<lambda>q. pend @ q) (slash_prefixes s @ [s])"
proof (induction s arbitrary: pend)
  case Nil
  then show ?case by (simp add: next_path_def)
next
  case (Cons c cs)
  have r: "split_on CHR ''/'' cs = hd (split_on CHR ''/'' cs) # tl (split_on CHR ''/'' cs)"
    using split_on_not_Nil [of "CHR ''/''" cs] by simp
  show ?case
  proof (cases "c = CHR ''/''")
    case True
    then have p: "pend \<noteq> []" using Cons.prems by simp
    have "cum_paths pend (([] @ hd (split_on CHR ''/'' cs)) # tl (split_on CHR ''/'' cs))
            = map (\<lambda>q. pend @ ''/'' @ [] @ q) (slash_prefixes cs @ [cs])"
      using p by (rule cum_paths_pending)
    then have "cum_paths pend (split_on CHR ''/'' cs)
            = map (\<lambda>q. pend @ ''/'' @ q) (slash_prefixes cs @ [cs])"
      using r by simp
    then show ?thesis using True p by (simp add: Let_def next_path_def)
  next
    case False
    have "cum_paths [] (((pend @ [c]) @ hd (split_on CHR ''/'' cs)) # tl (split_on CHR ''/'' cs))
            = map (\<lambda>q. (pend @ [c]) @ q) (slash_prefixes cs @ [cs])"
      by (rule Cons.IH) simp
    then show ?thesis using False by (simp add: Let_def)
  qed
qed

lemma cum_paths_relative:
  assumes "s \<noteq> []" "hd s \<noteq> CHR ''/''"
  shows "cum_paths [] (split_on CHR ''/'' s) = slash_prefixes s @ [s]"
proof -
  have "split_on CHR ''/'' s = ([] @ hd (split_on CHR ''/'' s)) # tl (split_on CHR ''/'' s)"
    using split_on_not_Nil [of "CHR ''/''" s] by simp
  then show ?thesis
    using cum_paths_pending_root [of "[]" s] assms by simp
qed
subsection \<open>Where the nodes of a tree are\<close>

lemma is_child_not_Nil: "is_child cur p \<Longrightarrow> p \<noteq> []"
  by (auto simp: is_child_def next_path_def split: if_splits)

lemma takeWhile_part:
  "CHR ''/'' \<notin> set a \<Longrightarrow> takeWhile (\<lambda>c. c \<noteq> CHR ''/'') (a @ ''/'' @ r) = a"
  by (induction a) auto

lemma takeWhile_whole:
  "CHR ''/'' \<notin> set a \<Longrightarrow> takeWhile (\<lambda>c. c \<noteq> CHR ''/'') a = a"
  by (induction a) auto

text \<open>\<open>under q p\<close>: the path \<open>q\<close> is \<open>p\<close> or lies below the directory \<open>p\<close>.\<close>

lemma first_part_unique:
  assumes "CHR ''/'' \<notin> set a" "CHR ''/'' \<notin> set b"
    and "q = a \<or> (\<exists>r. q = a @ ''/'' @ r)" and "q = b \<or> (\<exists>r. q = b @ ''/'' @ r)"
  shows "a = b"
proof -
  have "takeWhile (\<lambda>c. c \<noteq> CHR ''/'') q = a"
    using assms(1,3) takeWhile_part takeWhile_whole by blast
  moreover have "takeWhile (\<lambda>c. c \<noteq> CHR ''/'') q = b"
    using assms(2,4) takeWhile_part takeWhile_whole by blast
  ultimately show ?thesis by simp
qed

lemma sibling_unique:
  assumes "is_child cur p1" "is_child cur p2"
    and "q = p1 \<or> (\<exists>r. q = p1 @ ''/'' @ r)" and "q = p2 \<or> (\<exists>r. q = p2 @ ''/'' @ r)"
  shows "p1 = p2"
proof -
  obtain a where a: "CHR ''/'' \<notin> set a" "p1 = next_path cur a"
    using assms(1) by (auto simp: is_child_def)
  obtain b where b: "CHR ''/'' \<notin> set b" "p2 = next_path cur b"
    using assms(2) by (auto simp: is_child_def)
  show ?thesis
  proof (cases "cur = []")
    case True
    then show ?thesis using a b assms(3,4) first_part_unique [of a b q]
      by (simp add: next_path_def)
  next
    case False
    let ?q = "drop (length cur + 1) q"
    have "?q = a \<or> (\<exists>r. ?q = a @ ''/'' @ r)"
      using assms(3) a False by (auto simp: next_path_def)
    moreover have "?q = b \<or> (\<exists>r. ?q = b @ ''/'' @ r)"
      using assms(4) b False by (auto simp: next_path_def)
    ultimately have "a = b" using a(1) b(1) first_part_unique by blast
    then show ?thesis using a b by simp
  qed
qed

lemma nodes_of_under:
  "sited cur e \<Longrightarrow> (q, t) \<in> set (nodes_of e) \<Longrightarrow>
   q = node_path e \<or> (\<exists>r. q = node_path e @ ''/'' @ r)"
proof (induction e arbitrary: cur q t)
  case (TreeNode p ty s m c)
  show ?case
  proof (cases "q = p")
    case True
    then show ?thesis by simp
  next
    case False
    then obtain cs n where c: "c = Some cs" and n: "n \<in> set cs" "(q, t) \<in> set (nodes_of n)"
      using TreeNode.prems(2) by (auto split: option.splits)
    have sn: "sited p n" using TreeNode.prems(1) c n(1) by simp
    have "q = node_path n \<or> (\<exists>r. q = node_path n @ ''/'' @ r)"
      using TreeNode.IH [of cs n p q t] c n sn by simp
    moreover have "is_child p (node_path n)" using sn by (cases n) simp
    moreover have "p \<noteq> []" using TreeNode.prems(1) is_child_not_Nil by auto
    ultimately show ?thesis by (auto simp: is_child_def next_path_def)
  qed
qed

lemma sited_is_child: "sited cur e \<Longrightarrow> is_child cur (node_path e)"
  by (cases e) simp

lemma forest_nodes_Cons: "forest_nodes (e # es) = nodes_of e @ forest_nodes es"
  by (simp add: forest_nodes_def)

lemma forest_nodes_append: "forest_nodes (xs @ ys) = forest_nodes xs @ forest_nodes ys"
  by (simp add: forest_nodes_def)

lemma forest_nodes_member:
  "x \<in> set (forest_nodes level) \<longleftrightarrow> (\<exists>e \<in> set level. x \<in> set (nodes_of e))"
  by (auto simp: forest_nodes_def)

lemma forest_paths_distinct_step:
  assumes "\<And>n. n \<in> set level \<Longrightarrow> sited cur n \<Longrightarrow> distinct (map fst (nodes_of n))"
    and "forest_sited cur level"
  shows "distinct (map fst (forest_nodes level))"
  using assms
proof (induction level)
  case Nil
  then show ?case by (simp add: forest_nodes_def)
next
  case (Cons e es)
  have se: "sited cur e" and ses: "forest_sited cur es"
    using Cons.prems(2) by (auto simp: forest_sited_def)
  have 1: "distinct (map fst (nodes_of e))" using Cons.prems(1) se by simp
  have 2: "distinct (map fst (forest_nodes es))"
    using Cons.IH Cons.prems(1) ses by simp
  have 3: "fst ` set (nodes_of e) \<inter> fst ` set (forest_nodes es) = {}"
  proof (rule ccontr)
    assume "fst ` set (nodes_of e) \<inter> fst ` set (forest_nodes es) \<noteq> {}"
    then obtain q t t' e' where q: "(q, t) \<in> set (nodes_of e)" "e' \<in> set es" "(q, t') \<in> set (nodes_of e')"
      by (auto simp: forest_nodes_member)
    have se': "sited cur e'" using ses q(2) by (simp add: forest_sited_def)
    have "node_path e = node_path e'"
      using sibling_unique [OF sited_is_child [OF se] sited_is_child [OF se']]
            nodes_of_under [OF se q(1)] nodes_of_under [OF se' q(3)] by blast
    then show False using Cons.prems(2) q(2) by (auto simp: forest_sited_def)
  qed
  show ?case using 1 2 3 by (simp add: forest_nodes_Cons)
qed

lemma nodes_of_paths_distinct: "sited cur e \<Longrightarrow> distinct (map fst (nodes_of e))"
proof (induction e arbitrary: cur)
  case (TreeNode p ty s m c)
  show ?case
  proof (cases c)
    case None
    then show ?thesis by simp
  next
    case (Some cs)
    have fs: "forest_sited p cs" using TreeNode.prems Some by (simp add: forest_sited_def)
    have d: "distinct (map fst (forest_nodes cs))"
      using forest_paths_distinct_step [of cs p] TreeNode.IH Some fs by auto
    have "p \<notin> fst ` set (forest_nodes cs)"
    proof
      assume "p \<in> fst ` set (forest_nodes cs)"
      then obtain t n where n: "n \<in> set cs" "(p, t) \<in> set (nodes_of n)"
        by (auto simp: forest_nodes_member)
      have sn: "sited p n" using fs n(1) by (simp add: forest_sited_def)
      have pne: "p \<noteq> []" using TreeNode.prems is_child_not_Nil by auto
      obtain part where "node_path n = p @ ''/'' @ part"
        using sited_is_child [OF sn] pne by (auto simp: is_child_def next_path_def)
      then show False using nodes_of_under [OF sn n(2)] by auto
    qed
    then show ?thesis using d Some by (simp add: forest_nodes_def)
  qed
qed

lemma forest_paths_distinct:
  "forest_sited cur level \<Longrightarrow> distinct (map fst (forest_nodes level))"
  using forest_paths_distinct_step nodes_of_paths_distinct by blast
subsection \<open>One insertion into a tree whose nodes are in their places\<close>

lemma find_path_split:
  "find (\<lambda>e. node_path e = p) level = Some e \<Longrightarrow>
   \<exists>xs ys. level = xs @ e # ys \<and> (\<forall>n. replace_first p n level = xs @ n # ys)"
proof (induction level)
  case Nil
  then show ?case by simp
next
  case (Cons x level)
  show ?case
  proof (cases "node_path x = p")
    case True
    then have "x = e" using Cons.prems by simp
    then have "x # level = [] @ e # level \<and> (\<forall>n. replace_first p n (x # level) = [] @ n # level)"
      using True by simp
    then show ?thesis by blast
  next
    case False
    then have "find (\<lambda>e. node_path e = p) level = Some e" using Cons.prems by simp
    from Cons.IH [OF this] obtain xs ys where
      "level = xs @ e # ys" "\<forall>n. replace_first p n level = xs @ n # ys" by blast
    then have "x # level = (x # xs) @ e # ys
               \<and> (\<forall>n. replace_first p n (x # level) = (x # xs) @ n # ys)"
      using False by simp
    then show ?thesis by blast
  qed
qed

lemma cum_paths_not_Nil: "parts \<noteq> [] \<Longrightarrow> cum_paths cur parts \<noteq> []"
  by (cases parts) auto

lemma node_in_forest:
  "e \<in> set level \<Longrightarrow> (node_path e, node_type e) \<in> set (forest_nodes level)"
  by (cases e) (force simp: forest_nodes_member)

lemma sited_directory:
  "sited cur e \<Longrightarrow> node_type e \<noteq> File \<Longrightarrow>
   \<exists>cs. node_children e = Some cs \<and> node_type e = Directory \<and> forest_sited (node_path e) cs"
  by (cases e) (auto simp: forest_sited_def split: option.splits)

lemma count_files_append: "count_files (xs @ ys) = count_files xs + count_files ys"
  by (simp add: count_files_def forest_nodes_append)

lemma count_files_Cons:
  "count_files (e # es) = length (filter (\<lambda>n. snd n = File) (nodes_of e)) + count_files es"
  by (simp add: count_files_def forest_nodes_Cons)

lemma nodes_of_directory:
  "node_children e = Some cs \<Longrightarrow> nodes_of e = (node_path e, node_type e) # forest_nodes cs"
  by (cases e) (simp add: forest_nodes_def)

lemma insert_path_sited:
  assumes "forest_sited cur level"
    and "parts \<noteq> []"
    and "\<forall>p \<in> set parts. CHR ''/'' \<notin> set p"
    and "cur = [] \<longrightarrow> hd parts \<noteq> []"
    and "rec_type f = File"
    and "\<forall>c \<in> set (butlast (cum_paths cur parts)). (c, File) \<notin> set (forest_nodes level)"
    and "last (cum_paths cur parts) \<notin> fst ` set (forest_nodes level)"
  shows "forest_sited cur (insert_path f cur parts level)
       \<and> set (forest_nodes (insert_path f cur parts level))
           = set (forest_nodes level)
             \<union> (\<lambda>c. (c, Directory)) ` set (butlast (cum_paths cur parts))
             \<union> {(last (cum_paths cur parts), File)}
       \<and> count_files (insert_path f cur parts level) = Suc (count_files level)"
  using assms
proof (induction parts arbitrary: cur level)
  case Nil
  then show ?case by simp
next
  case (Cons part rest)
  let ?p = "next_path cur part"
  let ?find = "find (\<lambda>e. node_path e = ?p) level"
  have child: "is_child cur ?p"
    using Cons.prems(3,4) by (auto simp: is_child_def)
  have pne: "?p \<noteq> []" using child by (rule is_child_not_Nil)
  have notdir: "rec_type f \<noteq> Directory" using Cons.prems(5) by simp
  show ?case
  proof (cases "rest = []")
    case True
    have fresh: "?p \<notin> fst ` set (forest_nodes level)" using Cons.prems(7) True by simp
    have none: "?find = None"
    proof (cases ?find)
      case None
      then show ?thesis .
    next
      case (Some e)
      from find_path_Some [OF Some] node_in_forest [of e level] fresh
      show ?thesis by force
    qed
    let ?n = "TreeNode ?p File (Some (rec_size f)) (Some (rec_modified f)) None"
    have res: "insert_path f cur (part # rest) level = level @ [?n]"
      using insert_path_new_file [OF none notdir] True by simp
    have 1: "forest_sited cur (level @ [?n])"
      using Cons.prems(1) child find_path_None [OF none] by (auto simp: forest_sited_def)
    have 2: "forest_nodes (level @ [?n]) = forest_nodes level @ [(?p, File)]"
      by (simp add: forest_nodes_append forest_nodes_def)
    show ?thesis unfolding res using 1 2 True by (simp add: count_files_def)
  next
    case False
    have cp: "cum_paths ?p rest \<noteq> []" using False by (rule cum_paths_not_Nil)
    have bl: "butlast (cum_paths cur (part # rest)) = ?p # butlast (cum_paths ?p rest)"
      and la: "last (cum_paths cur (part # rest)) = last (cum_paths ?p rest)"
      using cp by simp_all
    have nofile: "(?p, File) \<notin> set (forest_nodes level)" using Cons.prems(6) bl by simp
    have c: "rest \<noteq> [] \<or> rec_type f = Directory" using False by simp
    have ih: "forest_sited ?p cs
               \<and> set (forest_nodes cs) \<subseteq> set (forest_nodes level) \<Longrightarrow>
              forest_sited ?p (insert_path f ?p rest cs)
              \<and> set (forest_nodes (insert_path f ?p rest cs))
                  = set (forest_nodes cs)
                    \<union> (\<lambda>c. (c, Directory)) ` set (butlast (cum_paths ?p rest))
                    \<union> {(last (cum_paths ?p rest), File)}
              \<and> count_files (insert_path f ?p rest cs) = Suc (count_files cs)" for cs
    proof -
      assume a: "forest_sited ?p cs \<and> set (forest_nodes cs) \<subseteq> set (forest_nodes level)"
      have 6: "\<forall>c \<in> set (butlast (cum_paths ?p rest)). (c, File) \<notin> set (forest_nodes cs)"
        using Cons.prems(6) bl a by auto
      have 7: "last (cum_paths ?p rest) \<notin> fst ` set (forest_nodes cs)"
        using Cons.prems(7) la a by auto
      show ?thesis
        using Cons.IH [of ?p cs] a False Cons.prems(3,5) pne 6 7 by simp
    qed
    show ?thesis
    proof (cases ?find)
      case None
      let ?cs' = "insert_path f ?p rest []"
      let ?n = "TreeNode ?p Directory (if rest = [] then Some (rec_size f) else None)
                  (if rest = [] then Some (rec_modified f) else None) (Some ?cs')"
      have res: "insert_path f cur (part # rest) level = level @ [?n]"
        by (rule insert_path_new_dir [OF None c])
      have sub: "forest_sited ?p ?cs'
              \<and> set (forest_nodes ?cs')
                  = (\<lambda>c. (c, Directory)) ` set (butlast (cum_paths ?p rest))
                    \<union> {(last (cum_paths ?p rest), File)}
              \<and> count_files ?cs' = Suc 0"
        using ih [of "[]"] by (simp add: forest_sited_def forest_nodes_def count_files_def)
      have 1: "forest_sited cur (level @ [?n])"
        using Cons.prems(1) child find_path_None [OF None] sub
        by (auto simp: forest_sited_def)
      have 2: "forest_nodes (level @ [?n]) = forest_nodes level @ (?p, Directory) # forest_nodes ?cs'"
        by (simp add: forest_nodes_append forest_nodes_def)
      have 3: "count_files (level @ [?n]) = Suc (count_files level)"
        using sub unfolding count_files_def 2 by simp
      have 4: "set (forest_nodes (level @ [?n]))
                 = set (forest_nodes level)
                   \<union> (\<lambda>c. (c, Directory)) ` set (butlast (cum_paths cur (part # rest)))
                   \<union> {(last (cum_paths cur (part # rest)), File)}"
        unfolding 2 bl la using sub by auto
      show ?thesis unfolding res using 1 3 4 by blast
    next
      case (Some e)
      from find_path_Some [OF Some] have e: "e \<in> set level" "node_path e = ?p" by auto
      have se: "sited cur e" using Cons.prems(1) e(1) by (simp add: forest_sited_def)
      have "node_type e \<noteq> File" using node_in_forest [OF e(1)] e(2) nofile by auto
      from sited_directory [OF se this] obtain cs where
        cs: "node_children e = Some cs" "node_type e = Directory" "forest_sited ?p cs"
        using e(2) by auto
      let ?cs' = "insert_path f ?p rest cs"
      let ?e' = "TreeNode (node_path e) (node_type e) (node_size e) (node_modified e) (Some ?cs')"
      from find_path_split [OF Some] obtain xs ys where
        lv: "level = xs @ e # ys" and rp: "replace_first ?p ?e' level = xs @ ?e' # ys"
        by blast
      have res: "insert_path f cur (part # rest) level = xs @ ?e' # ys"
        using insert_path_found_dir [OF Some cs(1)] rp by simp
      have ne: "nodes_of e = (?p, Directory) # forest_nodes cs"
        using nodes_of_directory [OF cs(1)] e(2) cs(2) by simp
      have ne': "nodes_of ?e' = (?p, Directory) # forest_nodes ?cs'"
        by (simp add: forest_nodes_def e(2) cs(2))
      have old: "forest_nodes level = forest_nodes xs @ (?p, Directory) # forest_nodes cs @ forest_nodes ys"
        unfolding lv by (simp add: forest_nodes_append forest_nodes_Cons ne)
      have new: "forest_nodes (xs @ ?e' # ys)
                   = forest_nodes xs @ (?p, Directory) # forest_nodes ?cs' @ forest_nodes ys"
        unfolding forest_nodes_append forest_nodes_Cons ne' by simp
      have subset: "set (forest_nodes cs) \<subseteq> set (forest_nodes level)"
        unfolding old by auto
      have sub: "forest_sited ?p ?cs'
              \<and> set (forest_nodes ?cs')
                  = set (forest_nodes cs)
                    \<union> (\<lambda>c. (c, Directory)) ` set (butlast (cum_paths ?p rest))
                    \<union> {(last (cum_paths ?p rest), File)}
              \<and> count_files ?cs' = Suc (count_files cs)"
        using ih [of cs] cs(3) subset by simp
      have se': "sited cur ?e'"
        using se sub cs(2) e(2) child by (simp add: forest_sited_def)
      have 1: "forest_sited cur (xs @ ?e' # ys)"
        using Cons.prems(1) se' unfolding lv forest_sited_def by auto
      have 3: "count_files (xs @ ?e' # ys) = Suc (count_files level)"
        using sub unfolding count_files_def old new by simp
      have 4: "set (forest_nodes (xs @ ?e' # ys))
                 = set (forest_nodes level)
                   \<union> (\<lambda>c. (c, Directory)) ` set (butlast (cum_paths cur (part # rest)))
                   \<union> {(last (cum_paths cur (part # rest)), File)}"
        unfolding new old bl la using sub by auto
      show ?thesis unfolding res using 1 3 4 by blast
    qed
  qed
qed
subsection \<open>The tree of a consistent listing\<close>

lemma consistent_listing_butlast: "consistent_listing (fs @ [f]) \<Longrightarrow> consistent_listing fs"
  by (auto simp: consistent_listing_def)

lemma buildTreeFromFiles_consistent:
  assumes "consistent_listing fs"
  shows "forest_sited [] (buildTreeFromFiles fs)
       \<and> set (forest_nodes (buildTreeFromFiles fs))
           = (\<lambda>f. (rec_path f, File)) ` set fs
             \<union> (\<Union>f \<in> set fs. (\<lambda>c. (c, Directory)) ` set (slash_prefixes (rec_path f)))
       \<and> count_files (buildTreeFromFiles fs) = length fs"
  using assms
proof (induction fs rule: rev_induct)
  case Nil
  then show ?case
    by (simp add: buildTreeFromFiles_def forest_sited_def forest_nodes_def count_files_def)
next
  case (snoc f fs)
  let ?T = "buildTreeFromFiles fs"
  let ?parts = "split_on CHR ''/'' (rec_path f)"
  have prev: "consistent_listing fs" using snoc.prems by (rule consistent_listing_butlast)
  from snoc.IH [OF prev] have
    sited: "forest_sited [] ?T"
    and nodes: "set (forest_nodes ?T)
           = (\<lambda>f. (rec_path f, File)) ` set fs
             \<union> (\<Union>f \<in> set fs. (\<lambda>c. (c, Directory)) ` set (slash_prefixes (rec_path f)))"
    and count: "count_files ?T = length fs"
    by auto
  have rel: "rec_path f \<noteq> []" "hd (rec_path f) \<noteq> CHR ''/''" and ty: "rec_type f = File"
    using snoc.prems by (auto simp: consistent_listing_def)
  have cum: "cum_paths [] ?parts = slash_prefixes (rec_path f) @ [rec_path f]"
    using rel by (rule cum_paths_relative)
  have p2: "?parts \<noteq> []" by (rule split_on_not_Nil)
  have p3: "\<forall>p \<in> set ?parts. CHR ''/'' \<notin> set p" by (rule split_on_no_sep_parts)
  have p4: "[] = ([]::string) \<longrightarrow> hd ?parts \<noteq> []"
    using rel hd_split_on_Cons [of "hd (rec_path f)" "CHR ''/''" "tl (rec_path f)"] by simp
  have p6: "\<forall>c \<in> set (butlast (cum_paths [] ?parts)). (c, File) \<notin> set (forest_nodes ?T)"
    unfolding cum nodes using snoc.prems by (auto simp: consistent_listing_def)
  have p7: "last (cum_paths [] ?parts) \<notin> fst ` set (forest_nodes ?T)"
    unfolding cum nodes using snoc.prems by (auto simp: consistent_listing_def)
  from insert_path_sited [OF sited p2 p3 p4 ty p6 p7]
  show ?case
    unfolding buildTreeFromFiles_snoc cum using count nodes by auto
qed

lemma occurs_once:
  assumes "distinct xs" "x \<in> set xs"
  shows "length (filter (\<lambda>n. n = x) xs) = 1"
  using assms by (induction xs) (auto simp: filter_empty_conv)

text \<open>
  C2 (as amended). For every consistent listing (records of files with relative paths, no
  path listed twice, no path of a file that is also a directory implied by a listed path),
  the tree built from the listing has as many nodes of type file as the listing has
  records, and every proper path prefix of every record occurs exactly once in the tree as
  a node of type directory.
\<close>

theorem buildTreeFromFiles_counts:
  assumes "consistent_listing fs"
  shows "count_files (buildTreeFromFiles fs) = length fs
       \<and> (\<forall>f \<in> set fs. \<forall>p \<in> set (slash_prefixes (rec_path f)).
             dir_occurrences p (buildTreeFromFiles fs) = 1)"
proof -
  let ?T = "buildTreeFromFiles fs"
  from buildTreeFromFiles_consistent [OF assms] have
    sited: "forest_sited [] ?T"
    and nodes: "set (forest_nodes ?T)
           = (\<lambda>f. (rec_path f, File)) ` set fs
             \<union> (\<Union>f \<in> set fs. (\<lambda>c. (c, Directory)) ` set (slash_prefixes (rec_path f)))"
    and count: "count_files ?T = length fs"
    by auto
  have "distinct (map fst (forest_nodes ?T))" using sited by (rule forest_paths_distinct)
  then have d: "distinct (forest_nodes ?T)" by (simp add: distinct_map)
  have "\<forall>f \<in> set fs. \<forall>p \<in> set (slash_prefixes (rec_path f)). dir_occurrences p ?T = 1"
  proof (intro ballI)
    fix f p assume "f \<in> set fs" "p \<in> set (slash_prefixes (rec_path f))"
    then have "(p, Directory) \<in> set (forest_nodes ?T)" unfolding nodes by auto
    with d show "dir_occurrences p ?T = 1" unfolding dir_occurrences_def by (rule occurs_once)
  qed
  with count show ?thesis by simp
qed

theorem buildTreeFromFiles_counts_witness:
  "consistent_listing sample_records
   \<and> count_files (buildTreeFromFiles sample_records) = 2
   \<and> dir_occurrences ''.claude'' (buildTreeFromFiles sample_records) = 1"
proof -
  have c: "consistent_listing sample_records"
    by (simp add: consistent_listing_def sample_records_def)
  have p: "''.claude'' \<in> set (slash_prefixes (rec_path (hd sample_records)))"
    by (simp add: sample_records_def)
  have h: "hd sample_records \<in> set sample_records" by (simp add: sample_records_def)
  have l: "length sample_records = 2" by (simp add: sample_records_def)
  from buildTreeFromFiles_counts [OF c] h p l show ?thesis using c by auto
qed

text \<open>
  The claim C2 as it is stated, for every sequence of records, fails: a path listed twice
  gives one leaf for two records; a path listed as a file before a record that has it as a
  directory gives no directory node for it; and with a leading slash the path \<open>a\<close> is the
  path of two directory nodes.
\<close>

theorem buildTreeFromFiles_counts_counterexample:
  "length twice_records = 2 \<and> count_files (buildTreeFromFiles twice_records) = 1
   \<and> ''a'' \<in> set (slash_prefixes (rec_path (last clash_records)))
   \<and> dir_occurrences ''a'' (buildTreeFromFiles clash_records) = 0
   \<and> dir_occurrences ''a'' (buildTreeFromFiles rooted_records) = 2"
  by (simp add: twice_records_def clash_records_def rooted_records_def buildTreeFromFiles_def
        count_files_def dir_occurrences_def forest_nodes_def Let_def)

subsection \<open>Reading a well-formed manifest\<close>

lemma expect_append: "expect lit (lit @ s) = Some s"
  by (simp add: expect_def startsWith_def)

lemma span_plus_stop:
  "a \<noteq> [] \<Longrightarrow> \<forall>x \<in> set a. P x \<Longrightarrow> \<not> P y \<Longrightarrow> span_plus P (a @ y # b) = Some (a, y # b)"
  by (simp add: span_plus_def takeWhile_append2 dropWhile_append2)

lemma span_plus_one: "P c \<Longrightarrow> \<not> P y \<Longrightarrow> span_plus P (c # y # b) = Some ([c], y # b)"
  by (simp add: span_plus_def)

lemma dropWhile_twice: "dropWhile P (dropWhile P xs) = dropWhile P xs"
  by (induction xs) auto

lemma final_text_trim:
  assumes "m \<noteq> []" "\<not> list_ex is_line_terminator m"
  shows "\<exists>m'. final_text (CHR '' '' # takeWhile is_space m) (dropWhile is_space m) = Some m'
              \<and> trim m' = trim m"
proof (cases "dropWhile is_space m = []")
  case True
  then have all: "\<forall>x \<in> set m. is_space x" by (simp add: dropWhile_eq_Nil_conv)
  then have tw: "takeWhile is_space m = m" by (simp add: takeWhile_eq_all_conv)
  have lastm: "last m \<in> set m" using assms(1) by simp
  have nt: "\<not> is_line_terminator (last m)"
    using assms(2) lastm by (auto simp: list_ex_iff)
  have "final_text (CHR '' '' # takeWhile is_space m) (dropWhile is_space m) = Some [last m]"
    unfolding final_text_def tw True using assms(1) nt
    by (cases m) simp_all
  moreover have "trim [last m] = []" using all lastm by (simp add: trim_def)
  moreover have "trim m = []" unfolding trim_def True by simp
  ultimately show ?thesis by simp
next
  case False
  have "set (dropWhile is_space m) \<subseteq> set m" by (rule set_dropWhileD [THEN subsetI])
  then have "\<not> list_ex is_line_terminator (dropWhile is_space m)"
    using assms(2) by (auto simp: list_ex_iff)
  then have "final_text (CHR '' '' # takeWhile is_space m) (dropWhile is_space m)
               = Some (dropWhile is_space m)"
    using False by (simp add: final_text_def)
  moreover have "trim (dropWhile is_space m) = trim m"
    by (simp add: trim_def dropWhile_twice)
  ultimately show ?thesis by simp
qed

lemma space_facts:
  "is_space (CHR '' '')" "\<not> is_space (CHR ''('')" "\<not> is_space (CHR ''b'')"
  "\<not> is_space (CHR ''-'')" "\<not> is_space (CHR ''M'')" "\<not> is_digit (CHR '' '')"
  "\<not> is_space (CHR 0x22)"
  by (simp_all add: is_space_def is_digit_def)

lemma match_file_line_render:
  assumes "wf_entry (p, ds, m)"
  shows "\<exists>m'. match_file_line (render_entry (p, ds, m)) = Some (p, ds, m') \<and> trim m' = trim m"
proof -
  have p: "p \<noteq> []" "\<forall>x \<in> set p. x \<noteq> CHR 0x22"
    and ds: "ds \<noteq> []" "\<forall>x \<in> set ds. is_digit x"
    and m: "m \<noteq> []" "\<not> list_ex is_line_terminator m"
    using assms by (auto simp: wf_entry_def wf_number_def list_all_iff)
  obtain m' where fin: "final_text (CHR '' '' # takeWhile is_space m) (dropWhile is_space m) = Some m'"
    and tr: "trim m' = trim m"
    using final_text_trim [OF m] by blast
  let ?r13 = "CHR '' '' # m"
  let ?r12 = "''Modified:'' @ ?r13"
  let ?r11 = "CHR '' '' # ?r12"
  let ?r10 = "CHR ''-'' # ?r11"
  let ?r9 = "CHR '' '' # ?r10"
  let ?r8 = "''bytes)'' @ ?r9"
  let ?r7 = "CHR '' '' # ?r8"
  let ?r6 = "ds @ ?r7"
  let ?r5 = "CHR ''('' # ?r6"
  let ?r4 = "CHR '' '' # ?r5"
  let ?r3 = "CHR 0x22 # ?r4"
  let ?r2 = "p @ ?r3"
  have line: "render_entry (p, ds, m) = [CHR 0x22] @ ?r2"
    by (simp add: render_entry_def)
  have s1: "expect [CHR 0x22] ([CHR 0x22] @ ?r2) = Some ?r2" by (rule expect_append)
  have s2: "span_plus (\<lambda>c. c \<noteq> CHR 0x22) ?r2 = Some (p, ?r3)"
    using p by (intro span_plus_stop) auto
  have s3: "expect [CHR 0x22] ?r3 = Some ?r4" using expect_append [of "[CHR 0x22]" ?r4] by simp
  have s4: "span_plus is_space ?r4 = Some ([CHR '' ''], ?r5)"
    by (intro span_plus_one) (simp_all add: space_facts)
  have s5: "expect ''('' ?r5 = Some ?r6" using expect_append [of "''(''" ?r6] by simp
  have s6: "span_plus is_digit ?r6 = Some (ds, ?r7)"
    using ds by (intro span_plus_stop) (auto simp: space_facts)
  have s7: "span_plus is_space ?r7 = Some ([CHR '' ''], ?r8)"
    using span_plus_one [of is_space "CHR '' ''" "CHR ''b''"] by (simp add: space_facts)
  have s8: "expect ''bytes)'' ?r8 = Some ?r9" by (rule expect_append)
  have s9: "span_plus is_space ?r9 = Some ([CHR '' ''], ?r10)"
    by (intro span_plus_one) (simp_all add: space_facts)
  have s10: "expect ''-'' ?r10 = Some ?r11" using expect_append [of "''-''" ?r11] by simp
  have s11: "span_plus is_space ?r11 = Some ([CHR '' ''], ?r12)"
    using span_plus_one [of is_space "CHR '' ''" "CHR ''M''"] by (simp add: space_facts)
  have s12: "expect ''Modified:'' ?r12 = Some ?r13" by (rule expect_append)
  have s13: "span_plus is_space ?r13 = Some (CHR '' '' # takeWhile is_space m, dropWhile is_space m)"
    by (simp add: span_plus_def space_facts)
  have "match_file_line (render_entry (p, ds, m)) = Some (p, ds, m')"
    unfolding match_file_line_def line s1 bind.bind_lunit s2 case_prod_conv s3 s4 s5 s6 s7 s8
      s9 s10 s11 s12 s13 fin
    by simp
  with tr show ?thesis by blast
qed

lemma trim_Cons_not_Nil: "\<not> is_space c \<Longrightarrow> trim (c # s) \<noteq> []"
  by (simp add: trim_def dropWhile_eq_Nil_conv)

lemma scan_line_Nil: "scan_line st [] = st"
  by (simp add: scan_line_def scan_sections_def startsWith_def trim_def)

lemma scan_line_header:
  assumes "scan_view st = (a, b, fs, False, False)" "wf_header_line l"
  shows "scan_view (scan_line st l) = (a, b, fs, False, False)"
  using assms
  by (simp add: scan_view_def scan_line_def scan_sections_def wf_header_line_def Let_def)

lemma scan_header:
  "list_all wf_header_line h \<Longrightarrow> scan_view st = (a, b, fs, False, False) \<Longrightarrow>
   scan_view (foldl scan_line st h) = (a, b, fs, False, False)"
  by (induction h arbitrary: st) (simp_all add: scan_line_header)

lemma scan_line_listing:
  "scan_view st = (a, b, fs, x, y) \<Longrightarrow>
   scan_view (scan_line st ''File Listing:'') = (a, b, fs, True, False)"
  by (simp add: scan_view_def scan_line_def startsWith_def)

lemma scan_line_summary:
  "scan_view st = (a, b, fs, x, y) \<Longrightarrow>
   scan_view (scan_line st ''Summary:'') = (a, b, fs, False, True)"
  by (simp add: scan_view_def scan_line_def startsWith_def)

lemma scan_line_separators:
  "scan_line st ''-------------'' = st" "scan_line st ''--------'' = st"
  by (simp_all add: scan_line_def startsWith_def)

lemma scan_line_entry:
  assumes "scan_view st = (a, b, fs, True, False)" "wf_entry e"
  shows "scan_view (scan_line st (render_entry e)) = (a, b, fs @ [entry_record e], True, False)"
proof -
  obtain p ds m where e: "e = (p, ds, m)" by (cases e)
  obtain m' where mt: "match_file_line (render_entry (p, ds, m)) = Some (p, ds, m')"
    and tr: "trim m' = trim m"
    using match_file_line_render assms(2) e by blast
  obtain r where line: "render_entry (p, ds, m) = CHR 0x22 # r"
    by (simp add: render_entry_def)
  have ne: "trim (CHR 0x22 # r) \<noteq> []" by (rule trim_Cons_not_Nil) (simp add: space_facts)
  have sl: "scan_line st (CHR 0x22 # r) = scan_sections st (CHR 0x22 # r)"
    by (simp add: scan_line_def startsWith_def)
  have "scan_view (scan_sections st (CHR 0x22 # r))
          = (a, b, fs @ [entry_record (p, ds, m)], True, False)"
    using assms(1) ne mt [unfolded line] tr
    by (simp add: scan_sections_def scan_view_def entry_record_def startsWith_def)
  then show ?thesis unfolding e line sl .
qed

lemma scan_entries:
  "list_all wf_entry es \<Longrightarrow> scan_view st = (a, b, fs, True, False) \<Longrightarrow>
   scan_view (foldl scan_line st (map render_entry es))
     = (a, b, fs @ map entry_record es, True, False)"
proof (induction es arbitrary: st fs)
  case Nil
  then show ?case by simp
next
  case (Cons e es)
  have "scan_view (scan_line st (render_entry e)) = (a, b, fs @ [entry_record e], True, False)"
    using Cons.prems by (simp add: scan_line_entry)
  then have "scan_view (foldl scan_line (scan_line st (render_entry e)) (map render_entry es))
               = (a, b, (fs @ [entry_record e]) @ map entry_record es, True, False)"
    using Cons.prems(1) by (intro Cons.IH) simp_all
  then show ?case by simp
qed

lemma digits_dropWhile_space:
  assumes "wf_number ds"
  shows "dropWhile is_space (CHR '' '' # ds) = ds"
proof -
  obtain d r where ds: "ds = d # r" using assms by (cases ds) (simp_all add: wf_number_def)
  then have "is_digit d" using assms by (simp add: wf_number_def)
  then have "\<not> is_space d" by (rule digit_not_space)
  then show ?thesis unfolding ds by (simp add: space_facts)
qed

lemma span_plus_digits: "wf_number ds \<Longrightarrow> span_plus is_digit ds = Some (ds, [])"
  by (simp add: span_plus_def wf_number_def list_all_iff takeWhile_eq_all_conv [THEN iffD2]
      dropWhile_eq_Nil_conv)

lemma match_total_label:
  assumes "wf_number ds"
  shows "match_total label (label @ CHR '' '' # ds) = Some ds"
  using digits_dropWhile_space [OF assms] span_plus_digits [OF assms]
  by (simp add: match_total_def expect_append)

lemma match_total_other:
  "match_total ''Total Directories:'' (''Total Files: '' @ ds) = None"
  "match_total ''Total Files:'' (''Total Directories: '' @ ds) = None"
  by (simp_all add: match_total_def expect_def startsWith_def)

lemma scan_line_total_files:
  assumes "scan_view st = (a, b, fs, False, True)" "wf_number ds"
  shows "scan_view (scan_line st (''Total Files: '' @ ds))
           = (js_number (digits_value ds), b, fs, False, True)"
proof -
  let ?l = "''Total Files: '' @ ds"
  have f: "match_total ''Total Files:'' ?l = Some ds"
    using match_total_label [OF assms(2), of "''Total Files:''"] by simp
  have d: "match_total ''Total Directories:'' ?l = None" by (rule match_total_other)
  have ne: "trim ?l \<noteq> []"
    using trim_Cons_not_Nil [of "CHR ''T''"] by (simp add: is_space_def)
  have sl: "scan_line st ?l = scan_sections st ?l"
    by (simp add: scan_line_def startsWith_def)
  show ?thesis unfolding sl using assms(1) f d ne
    by (simp add: scan_sections_def scan_view_def)
qed

lemma scan_line_total_directories:
  assumes "scan_view st = (a, b, fs, False, True)" "wf_number ds"
  shows "scan_view (scan_line st (''Total Directories: '' @ ds))
           = (a, js_number (digits_value ds), fs, False, True)"
proof -
  let ?l = "''Total Directories: '' @ ds"
  have d: "match_total ''Total Directories:'' ?l = Some ds"
    using match_total_label [OF assms(2), of "''Total Directories:''"] by simp
  have f: "match_total ''Total Files:'' ?l = None" by (rule match_total_other)
  have ne: "trim ?l \<noteq> []"
    using trim_Cons_not_Nil [of "CHR ''T''"] by (simp add: is_space_def)
  have sl: "scan_line st ?l = scan_sections st ?l"
    by (simp add: scan_line_def startsWith_def)
  show ?thesis unfolding sl using assms(1) f d ne
    by (simp add: scan_sections_def scan_view_def)
qed

lemma scan_manifest:
  assumes "wf_manifest h e s"
  shows "scan_view (foldl scan_line initial_state (manifest_lines h e s @ [[]]))
           = (case s of
                None \<Rightarrow> (0, 0, map entry_record e, True, False)
              | Some (tf, td) \<Rightarrow>
                  (js_number (digits_value tf), js_number (digits_value td),
                   map entry_record e, False, True))"
proof -
  have wh: "list_all wf_header_line h" and we: "list_all wf_entry e" and ws: "wf_summary s"
    using assms by (simp_all add: wf_manifest_def)
  define s1 where "s1 = foldl scan_line initial_state h"
  define s2 where "s2 = scan_line (scan_line s1 ''File Listing:'') ''-------------''"
  define s3 where "s3 = foldl scan_line s2 (map render_entry e)"
  have v0: "scan_view initial_state = (0, 0, [], False, False)"
    by (simp add: scan_view_def initial_state_def)
  have v1: "scan_view s1 = (0, 0, [], False, False)"
    unfolding s1_def using wh v0 by (rule scan_header)
  have v2: "scan_view s2 = (0, 0, [], True, False)"
    unfolding s2_def scan_line_separators using v1 by (rule scan_line_listing)
  have v3: "scan_view s3 = (0, 0, map entry_record e, True, False)"
    unfolding s3_def using scan_entries [OF we v2] by simp
  show ?thesis
  proof (cases s)
    case None
    have "foldl scan_line initial_state (manifest_lines h e s @ [[]]) = s3"
      unfolding None manifest_lines_def s3_def s2_def s1_def
      by (simp add: scan_line_Nil)
    then show ?thesis using v3 None by simp
  next
    case (Some t)
    obtain tf td where t: "t = (tf, td)" by (cases t)
    have wtf: "wf_number tf" and wtd: "wf_number td"
      using ws Some t by (simp_all add: wf_summary_def)
    define s4 where "s4 = scan_line (scan_line s3 ''Summary:'') ''--------''"
    define s5 where "s5 = scan_line s4 (''Total Files: '' @ tf)"
    define s6 where "s6 = scan_line s5 (''Total Directories: '' @ td)"
    have v4: "scan_view s4 = (0, 0, map entry_record e, False, True)"
      unfolding s4_def scan_line_separators using v3 by (rule scan_line_summary)
    have v5: "scan_view s5 = (js_number (digits_value tf), 0, map entry_record e, False, True)"
      unfolding s5_def using v4 wtf by (rule scan_line_total_files)
    have v6: "scan_view s6 = (js_number (digits_value tf), js_number (digits_value td),
                              map entry_record e, False, True)"
      unfolding s6_def using v5 wtd by (rule scan_line_total_directories)
    have "foldl scan_line initial_state (manifest_lines h e s @ [[]]) = s6"
      unfolding Some t manifest_lines_def s6_def s5_def s4_def s3_def s2_def s1_def
      by (simp add: scan_line_Nil)
    then show ?thesis using v6 Some t by simp
  qed
qed

lemma digit_not_newline: "is_digit c \<Longrightarrow> c \<noteq> CHR 0x0A"
  using digit_not_sign by blast

lemma wf_number_no_newline: "wf_number ds \<Longrightarrow> CHR 0x0A \<notin> set ds"
  using digit_not_newline by (auto simp: wf_number_def list_all_iff)

lemma render_entry_no_newline:
  assumes "wf_entry e"
  shows "CHR 0x0A \<notin> set (render_entry e)"
proof -
  obtain p ds m where e: "e = (p, ds, m)" by (cases e)
  have "CHR 0x0A \<notin> set p" "wf_number ds" "\<not> list_ex is_line_terminator m"
    using assms e by (simp_all add: wf_entry_def)
  then have "CHR 0x0A \<notin> set p" "CHR 0x0A \<notin> set ds" "CHR 0x0A \<notin> set m"
    using wf_number_no_newline by (auto simp: list_ex_iff is_line_terminator_def)
  then show ?thesis unfolding e by (simp add: render_entry_def)
qed

lemma manifest_lines_no_newline:
  assumes "wf_manifest h e s"
  shows "\<forall>l \<in> set (manifest_lines h e s). CHR 0x0A \<notin> set l"
proof -
  have wh: "\<forall>l \<in> set h. CHR 0x0A \<notin> set l"
    using assms by (simp add: wf_manifest_def list_all_iff wf_header_line_def)
  have we: "\<forall>l \<in> set (map render_entry e). CHR 0x0A \<notin> set l"
    using assms render_entry_no_newline by (auto simp: wf_manifest_def list_all_iff)
  have ws: "\<forall>l \<in> set (case s of None \<Rightarrow> [] | Some (tf, td) \<Rightarrow>
                 [''Summary:'', ''--------'', ''Total Files: '' @ tf,
                  ''Total Directories: '' @ td]). CHR 0x0A \<notin> set l"
    using assms wf_number_no_newline
    by (auto simp: wf_manifest_def wf_summary_def split: option.splits)
  show ?thesis unfolding manifest_lines_def using wh we ws by (simp add: ball_Un)
qed

lemma split_manifest_text:
  assumes "wf_manifest h e s"
  shows "split_on CHR 0x0A (manifest_text h e s) = manifest_lines h e s @ [[]]"
  using split_on_lines_append [where f = "\<lambda>l. l" and ps = "manifest_lines h e s" and t = "[]"]
        manifest_lines_no_newline [OF assms]
  by (simp add: manifest_text_def)

lemma add_prefixes_set:
  "set (add_prefixes cur parts dirs) = set dirs \<union> set (butlast (cum_paths cur parts))"
  by (induction cur parts dirs rule: add_prefixes.induct) (simp_all add: Let_def next_path_def)

lemma add_prefixes_distinct:
  "distinct dirs \<Longrightarrow> distinct (add_prefixes cur parts dirs)"
  by (induction cur parts dirs rule: add_prefixes.induct) (simp_all add: Let_def)

lemma butlast_cum_paths_relative:
  assumes "p \<noteq> []" "hd p \<noteq> CHR ''/''"
  shows "butlast (cum_paths [] (split_on CHR ''/'' p)) = slash_prefixes p"
  using cum_paths_relative [OF assms] by simp

lemma collect_loop:
  assumes "list_all wf_entry es" "distinct acc"
  shows "set (foldl (\<lambda>directories f. add_prefixes [] (split_on CHR ''/'' (rec_path f)) directories)
                acc (map entry_record es))
           = set acc \<union> implied_directories es
         \<and> distinct (foldl (\<lambda>directories f.
                add_prefixes [] (split_on CHR ''/'' (rec_path f)) directories)
                acc (map entry_record es))"
  using assms
proof (induction es arbitrary: acc)
  case Nil
  then show ?case by (simp add: implied_directories_def)
next
  case (Cons e es)
  obtain p ds m where e: "e = (p, ds, m)" by (cases e)
  have rel: "p \<noteq> []" "hd p \<noteq> CHR ''/''" using Cons.prems(1) e by (simp_all add: wf_entry_def)
  let ?acc = "add_prefixes [] (split_on CHR ''/'' p) acc"
  have s: "set ?acc = set acc \<union> set (slash_prefixes p)"
    by (simp add: add_prefixes_set butlast_cum_paths_relative [OF rel])
  have d: "distinct ?acc" using Cons.prems(2) by (rule add_prefixes_distinct)
  have rest: "list_all wf_entry es" using Cons.prems(1) by simp
  have path: "rec_path (entry_record e) = p" by (simp add: e entry_record_def)
  have imp: "implied_directories (e # es) = set (slash_prefixes p) \<union> implied_directories es"
    by (simp add: implied_directories_def e)
  show ?case
    using Cons.IH [OF rest d] unfolding imp by (simp add: path s Un_assoc)
qed

lemma collect_directories_entries:
  assumes "list_all wf_entry es"
  shows "length (collect_directories (map entry_record es)) = card (implied_directories es)"
proof -
  have "set (collect_directories (map entry_record es)) = implied_directories es"
    and "distinct (collect_directories (map entry_record es))"
    using collect_loop [OF assms, of "[]"] by (simp_all add: collect_directories_def)
  then show ?thesis using distinct_card by metis
qed

lemma implied_directories_Nil: "implied_directories [] = {}"
  by (simp add: implied_directories_def)

text \<open>What the parser makes of a well-formed manifest, without a bound on the totals.\<close>

lemma parseTextManifest_wf:
  assumes "wf_manifest h e s"
  shows "total_files (parseTextManifest (manifest_text h e s)) =
           (case s of
              None \<Rightarrow> length e
            | Some (tf, td) \<Rightarrow>
                if js_number (digits_value tf) = 0 then length e else js_number (digits_value tf))"
    and "total_directories (parseTextManifest (manifest_text h e s)) =
           (case s of
              None \<Rightarrow> card (implied_directories e)
            | Some (tf, td) \<Rightarrow>
                if js_number (digits_value td) = 0 then card (implied_directories e)
                else js_number (digits_value td))"
    and "map rec_path (files (foldl scan_line initial_state
           (split_on CHR 0x0A (manifest_text h e s)))) = map fst e"
proof -
  define st where "st = foldl scan_line initial_state (split_on CHR 0x0A (manifest_text h e s))"
  have we: "list_all wf_entry e" using assms by (simp add: wf_manifest_def)
  have dirs: "length (collect_directories (map entry_record e)) = card (implied_directories e)"
    using we by (rule collect_directories_entries)
  have "scan_view st =
          (case s of
             None \<Rightarrow> (0, 0, map entry_record e, True, False)
           | Some (tf, td) \<Rightarrow>
               (js_number (digits_value tf), js_number (digits_value td),
                map entry_record e, False, True))"
    unfolding st_def split_manifest_text [OF assms] using assms by (rule scan_manifest)
  then have f: "files st = map entry_record e"
    and tf: "total_files_field st =
               (case s of None \<Rightarrow> 0 | Some (tf, td) \<Rightarrow> js_number (digits_value tf))"
    and td: "total_directories_field st =
               (case s of None \<Rightarrow> 0 | Some (tf, td) \<Rightarrow> js_number (digits_value td))"
    by (simp_all add: scan_view_def split: option.splits prod.splits)
  have p: "parseTextManifest (manifest_text h e s) =
             \<lparr>manifest_directory = directory_field st, manifest_timestamp = timestamp_field st,
              total_files = (if total_files_field st = 0 then length (files st)
                             else total_files_field st),
              total_directories =
                (if total_directories_field st = 0 \<and> length (files st) > 0
                 then length (collect_directories (files st))
                 else total_directories_field st),
              tree = buildTreeFromFiles (files st)\<rparr>"
    unfolding st_def parseTextManifest_def Let_def ..
  show "total_files (parseTextManifest (manifest_text h e s)) =
           (case s of
              None \<Rightarrow> length e
            | Some (tf, td) \<Rightarrow>
                if js_number (digits_value tf) = 0 then length e else js_number (digits_value tf))"
    unfolding p f tf by (simp split: option.splits)
  show "total_directories (parseTextManifest (manifest_text h e s)) =
           (case s of
              None \<Rightarrow> card (implied_directories e)
            | Some (tf, td) \<Rightarrow>
                if js_number (digits_value td) = 0 then card (implied_directories e)
                else js_number (digits_value td))"
    unfolding p f td using dirs
    by (cases e) (simp_all add: implied_directories_Nil split: option.splits)
  have "map rec_path (map entry_record e) = map fst e"
    by (induction e) (simp_all add: entry_record_def split: prod.splits)
  then show "map rec_path (files (foldl scan_line initial_state
           (split_on CHR 0x0A (manifest_text h e s)))) = map fst e"
    using f unfolding st_def by simp
qed

lemma sample_manifest_wf:
  "wf_manifest sample_header sample_entries (Some (''7'', ''0''))"
  "wf_manifest sample_header sample_entries (Some (''9007199254740993'', ''1''))"
  by (simp_all add: wf_manifest_def sample_header_def sample_entries_def wf_header_line_def
      wf_entry_def wf_number_def wf_summary_def startsWith_def is_digit_def
      is_line_terminator_def)

lemma sample_manifest_texts:
  "manifest_text sample_header sample_entries (Some (''7'', ''0'')) = sample_manifest_text"
  "manifest_text sample_header sample_entries (Some (''9007199254740993'', ''1''))
     = huge_manifest_text"
  by (simp_all add: manifest_text_def manifest_lines_def sample_header_def sample_entries_def
      render_entry_def sample_manifest_text_def huge_manifest_text_def)

lemma sample_digits:
  "digits_value ''7'' = 7" "digits_value ''0'' = 0"
  "digits_value ''9007199254740993'' = 9007199254740993"
  by (simp_all add: digits_value_def digit_val_def)

lemma sample_implied_directories: "implied_directories sample_entries = {''.claude''}"
  by (simp add: implied_directories_def sample_entries_def)

text \<open>
  C1. The claim: for every well-formed manifest text the parser returns exactly the
  embedded totals when the summary is present with non-zero values, and otherwise the
  number of parsed file records and the number of distinct proper path prefixes of their
  paths. A manifest is well formed when it is the text of header lines, the listing of
  entries with relative paths, and an optional summary of two totals given by their
  digits. The totals are JavaScript numbers, so the statement holds for totals below
  \<open>2 ^ 53\<close>: the embedded total is returned when it is not zero, the number of entries
  (each of which is parsed into its record) when the summary is absent or its total is
  zero, and likewise the number of directories that the paths of the entries imply. The
  file records that the scan collects are those of the entries, path by path.
\<close>

theorem parseTextManifest_totals:
  assumes "wf_manifest h e s" "small_totals s"
  shows "total_files (parseTextManifest (manifest_text h e s)) =
           (case s of
              None \<Rightarrow> length e
            | Some (tf, td) \<Rightarrow> if digits_value tf = 0 then length e else digits_value tf)
         \<and> total_directories (parseTextManifest (manifest_text h e s)) =
           (case s of
              None \<Rightarrow> card (implied_directories e)
            | Some (tf, td) \<Rightarrow>
                if digits_value td = 0 then card (implied_directories e) else digits_value td)
         \<and> map rec_path (files (foldl scan_line initial_state
               (split_on CHR 0x0A (manifest_text h e s)))) = map fst e"
proof (cases s)
  case None
  show ?thesis using parseTextManifest_wf [OF assms(1)] unfolding None by simp
next
  case (Some t)
  obtain tf td where t: "t = (tf, td)" by (cases t)
  have "js_number (digits_value tf) = digits_value tf" "js_number (digits_value td) = digits_value td"
    using assms(2) Some t by (simp_all add: small_totals_def js_number_exact)
  then show ?thesis using parseTextManifest_wf [OF assms(1)] unfolding Some t by simp
qed

theorem parseTextManifest_totals_witness:
  "wf_manifest sample_header sample_entries (Some (''7'', ''0''))
   \<and> small_totals (Some (''7'', ''0''))
   \<and> manifest_text sample_header sample_entries (Some (''7'', ''0'')) = sample_manifest_text
   \<and> length sample_entries = 2
   \<and> total_files (parseTextManifest sample_manifest_text) = 7
   \<and> total_directories (parseTextManifest sample_manifest_text) = 1"
proof -
  have small: "small_totals (Some (''7'', ''0''))"
    by (simp add: small_totals_def sample_digits)
  have len: "length sample_entries = 2" by (simp add: sample_entries_def)
  show ?thesis
    using parseTextManifest_totals [OF sample_manifest_wf(1) small]
    unfolding sample_manifest_texts
    by (simp add: sample_digits sample_implied_directories sample_manifest_wf small len)
qed

text \<open>
  The claim C1 as it is stated, for every total that the grammar can express, fails: the
  total \<open>2 ^ 53 + 1\<close> of a summary is read as the number \<open>2 ^ 53\<close>.
\<close>

theorem parseTextManifest_totals_counterexample:
  "wf_manifest sample_header sample_entries (Some (''9007199254740993'', ''1''))
   \<and> manifest_text sample_header sample_entries (Some (''9007199254740993'', ''1''))
        = huge_manifest_text
   \<and> digits_value ''9007199254740993'' = 9007199254740993
   \<and> total_files (parseTextManifest huge_manifest_text) = 9007199254740992"
  using parseTextManifest_wf(1) [OF sample_manifest_wf(2)]
  unfolding sample_manifest_texts
  by (simp add: sample_digits js_number_rounds sample_manifest_wf)

end
